theory Spec2Isabelle
  imports Main "HOL-Library.Word"
begin

unbundle bit_operations_syntax

section \<open>Machine types of the target (ESP32: 32-bit, little-endian)\<close>

type_synonym u8 = "8 word"
type_synonym u16 = "16 word"
type_synonym u32 = "32 word"

text \<open>\<^verbatim>\<open>FRAM::addr_t\<close> is \<^verbatim>\<open>uint16_t\<close>; \<^verbatim>\<open>size_t\<close> is a 32-bit unsigned integer on the ESP32.\<close>

type_synonym addr_t = u16
type_synonym size_t = u32

text \<open>
  \<^verbatim>\<open>esp_err_t\<close> is an \<^verbatim>\<open>int\<close>. The three codes the sources name are declared in
  ESP-IDF's \<^verbatim>\<open>esp_err.h\<close>, with these values.
\<close>

type_synonym esp_err_t = int

definition ESP_OK :: esp_err_t where
  "ESP_OK = 0"

definition ESP_ERR_INVALID_ARG :: esp_err_t where
  "ESP_ERR_INVALID_ARG = 0x102"

definition ESP_ERR_NOT_FOUND :: esp_err_t where
  "ESP_ERR_NOT_FOUND = 0x105"

section \<open>The checksum: \<^verbatim>\<open>crc32\<close> of \<^verbatim>\<open>fram_store.h\<close>\<close>

text \<open>
  The body of the inner loop that fills one table entry:
  \<^verbatim>\<open>c = (c & 1) ? (0xEDB88320u ^ (c >> 1)) : (c >> 1)\<close>.
\<close>

definition crc_shift :: "u32 \<Rightarrow> u32" where
  "crc_shift c = (if c AND 1 \<noteq> 0 then 0xEDB88320 XOR drop_bit 1 c else drop_bit 1 c)"

text \<open>One table entry: \<^verbatim>\<open>c = i; for (j = 0; j < 8; ++j) c = ...; table[i] = c\<close>.\<close>

definition table_entry :: "u32 \<Rightarrow> u32" where
  "table_entry i = crc_shift (crc_shift (crc_shift (crc_shift (crc_shift (crc_shift (crc_shift
     (crc_shift i)))))))"

text \<open>
  The two function-local statics of \<^verbatim>\<open>crc32\<close>. Static storage is zero-initialised,
  so a process starts with an all-zero table and \<^verbatim>\<open>init = false\<close>.
\<close>

record crc32_statics =
  table :: "u32 list"
  init :: bool

definition crc32_statics0 :: crc32_statics where
  "crc32_statics0 = \<lparr>table = replicate 256 0, init = False\<rparr>"

definition build_table :: "u32 list" where
  "build_table = map (\<lambda>i. table_entry (word_of_nat i)) [0..<256]"

text \<open>The byte loop: \<^verbatim>\<open>c = table[(c ^ p[i]) & 0xFFu] ^ (c >> 8)\<close>.\<close>

definition crc_byte :: "u32 list \<Rightarrow> u8 \<Rightarrow> u32 \<Rightarrow> u32" where
  "crc_byte tbl b c = (tbl ! unat ((c XOR ucast b) AND 0xFF)) XOR drop_bit 8 c"

text \<open>
  \<^verbatim>\<open>crc32\<close> with its statics passed in and returned: the table is built when
  \<^verbatim>\<open>init\<close> is false, then the bytes are folded from \<^verbatim>\<open>0xFFFFFFFF\<close> and the result
  is XORed with \<^verbatim>\<open>0xFFFFFFFF\<close>.
\<close>

definition crc32_call :: "crc32_statics \<Rightarrow> u8 list \<Rightarrow> u32 \<times> crc32_statics" where
  "crc32_call st data =
     (let st1 = (if \<not> init st then \<lparr>table = build_table, init = True\<rparr> else st);
          c = fold (crc_byte (table st1)) data 0xFFFFFFFF
      in (c XOR 0xFFFFFFFF, st1))"

text \<open>
  The statics a process can be in: the zero-initialised ones, or those left by a call.
\<close>

inductive reachable_statics :: "crc32_statics \<Rightarrow> bool" where
  start: "reachable_statics crc32_statics0"
| call: "reachable_statics st \<Longrightarrow> reachable_statics (snd (crc32_call st data))"

text \<open>
  The value \<^verbatim>\<open>crc32\<close> returns to its callers. It is the result of a call from the
  initial statics; a call from any statics the process can be in returns the same value
  (shown below), so the record store is modelled with this function of the bytes.
\<close>

definition crc32 :: "u8 list \<Rightarrow> u32" where
  "crc32 data = fst (crc32_call crc32_statics0 data)"

text \<open>
  The reference CRC-32 in the words of the specification: reflected polynomial
  \<^verbatim>\<open>0xEDB88320\<close>, seeded with \<^verbatim>\<open>0xFFFFFFFF\<close>, output XORed with \<^verbatim>\<open>0xFFFFFFFF\<close>.
  Each byte is XORed into the low end of the register, which is then divided bit by bit,
  least significant bit first.
\<close>

definition ref_bit :: "u32 \<Rightarrow> u32" where
  "ref_bit c = (if bit c 0 then drop_bit 1 c XOR 0xEDB88320 else drop_bit 1 c)"

definition ref_bit8 :: "u32 \<Rightarrow> u32" where
  "ref_bit8 x = ref_bit (ref_bit (ref_bit (ref_bit (ref_bit (ref_bit (ref_bit (ref_bit x)))))))"

definition ref_byte :: "u8 \<Rightarrow> u32 \<Rightarrow> u32" where
  "ref_byte b c = ref_bit8 (c XOR ucast b)"

definition crc32_reference :: "u8 list \<Rightarrow> u32" where
  "crc32_reference data = fold ref_byte data 0xFFFFFFFF XOR 0xFFFFFFFF"

section \<open>The record header\<close>

text \<open>\<^verbatim>\<open>struct Header\<close>, packed: 20 bytes.\<close>

record Header =
  magic :: u32
  version :: u16
  reserved :: u16
  seq :: u32
  len :: u32
  crc :: u32

definition STORE_MAGIC :: u32 where
  "STORE_MAGIC = 0x4652414D"

definition sizeof_Header :: size_t where
  "sizeof_Header = 20"

text \<open>\<^verbatim>\<open>Header best_hdr{0}\<close>: every field zero.\<close>

definition Header_zero :: Header where
  "Header_zero = \<lparr>magic = 0, version = 0, reserved = 0, seq = 0, len = 0, crc = 0\<rparr>"

text \<open>
  The object representation of the packed header, as \<^verbatim>\<open>fram_.write(next, &h, sizeof(h))\<close>
  sends it and \<^verbatim>\<open>fram_.read(a, &h, sizeof(h))\<close> fills it: the fields in declaration
  order, each least significant byte first.
\<close>

definition bytes_of_u16 :: "u16 \<Rightarrow> u8 list" where
  "bytes_of_u16 w = [ucast w, ucast (drop_bit 8 w)]"

definition bytes_of_u32 :: "u32 \<Rightarrow> u8 list" where
  "bytes_of_u32 w = [ucast w, ucast (drop_bit 8 w), ucast (drop_bit 16 w), ucast (drop_bit 24 w)]"

definition u16_of_bytes :: "u8 list \<Rightarrow> u16" where
  "u16_of_bytes bs = ucast (bs ! 0) OR push_bit 8 (ucast (bs ! 1))"

definition u32_of_bytes :: "u8 list \<Rightarrow> u32" where
  "u32_of_bytes bs = ucast (bs ! 0) OR push_bit 8 (ucast (bs ! 1))
     OR push_bit 16 (ucast (bs ! 2)) OR push_bit 24 (ucast (bs ! 3))"

definition Header_bytes :: "Header \<Rightarrow> u8 list" where
  "Header_bytes h = bytes_of_u32 (magic h) @ bytes_of_u16 (version h) @ bytes_of_u16 (reserved h)
     @ bytes_of_u32 (seq h) @ bytes_of_u32 (len h) @ bytes_of_u32 (crc h)"

text \<open>Only applied to the 20 bytes of a successful header read.\<close>

definition Header_of_bytes :: "u8 list \<Rightarrow> Header" where
  "Header_of_bytes bs =
     \<lparr>magic = u32_of_bytes (take 4 bs),
      version = u16_of_bytes (take 2 (drop 4 bs)),
      reserved = u16_of_bytes (take 2 (drop 6 bs)),
      seq = u32_of_bytes (take 4 (drop 8 bs)),
      len = u32_of_bytes (take 4 (drop 12 bs)),
      crc = u32_of_bytes (take 4 (drop 16 bs))\<rparr>"

section \<open>The backing store: \<^verbatim>\<open>FRAM::read\<close> and \<^verbatim>\<open>FRAM::write\<close> of \<^verbatim>\<open>fram.cpp\<close>\<close>

definition FRAM_SIZE_BYTES :: size_t where
  "FRAM_SIZE_BYTES = 8 * 1024"

text \<open>The calls made on the driver, with their arguments, in the order they were made.\<close>

datatype io_call = Read_call addr_t size_t | Write_call addr_t "u8 list"

text \<open>
  The device with its driver. \<open>cells\<close> is the content of the memory array.
  \<open>spi_results\<close> is the environment: the results that the coming calls of ESP-IDF's
  \<^verbatim>\<open>spi_device_transmit\<close> return, in order (\<^verbatim>\<open>ESP_OK\<close> once the list is used up).
  \<open>calls\<close> records every \<^verbatim>\<open>read\<close> and \<^verbatim>\<open>write\<close> call.
\<close>

record FRAM =
  cells :: "nat \<Rightarrow> u8"
  spi_results :: "esp_err_t list"
  calls :: "io_call list"

definition spi_device_transmit :: "FRAM \<Rightarrow> esp_err_t \<times> FRAM" where
  "spi_device_transmit f =
     (case spi_results f of
        [] \<Rightarrow> (ESP_OK, f)
      | e # es \<Rightarrow> (e, f\<lparr>spi_results := es\<rparr>))"

text \<open>\<^verbatim>\<open>FRAM::wren\<close> is \<^verbatim>\<open>cmd8\<close> of one opcode: a single transaction.\<close>

definition wren :: "FRAM \<Rightarrow> bool \<Rightarrow> esp_err_t \<times> FRAM" where
  "wren f en = spi_device_transmit f"

definition read_cells :: "(nat \<Rightarrow> u8) \<Rightarrow> nat \<Rightarrow> nat \<Rightarrow> u8 list" where
  "read_cells m a n = map m [a..<a + n]"

definition write_cells :: "(nat \<Rightarrow> u8) \<Rightarrow> nat \<Rightarrow> u8 list \<Rightarrow> (nat \<Rightarrow> u8)" where
  "write_cells m a bs = (\<lambda>k. if a \<le> k \<and> k < a + length bs then bs ! (k - a) else m k)"

text \<open>
  \<^verbatim>\<open>FRAM::read(addr, buf, len)\<close>, for a non-null \<^verbatim>\<open>buf\<close>. The result is the error code,
  the bytes copied into \<^verbatim>\<open>buf\<close> (the copy happens only on \<^verbatim>\<open>ESP_OK\<close>; the list is
  empty otherwise and the caller's buffer keeps its content), and the driver afterwards.
  The bounds test is the source's \<^verbatim>\<open>(uint32_t)addr + len > FRAM_SIZE_BYTES\<close>, in 32-bit
  arithmetic.
\<close>

definition FRAM_read :: "FRAM \<Rightarrow> addr_t \<Rightarrow> size_t \<Rightarrow> esp_err_t \<times> u8 list \<times> FRAM" where
  "FRAM_read f0 addr n =
     (let f = f0\<lparr>calls := calls f0 @ [Read_call addr n]\<rparr> in
      if n = 0 then (ESP_ERR_INVALID_ARG, [], f)
      else if (ucast addr :: u32) + n > FRAM_SIZE_BYTES then (ESP_ERR_INVALID_ARG, [], f)
      else
        (let (err, f1) = spi_device_transmit f in
         if err = ESP_OK then (err, read_cells (cells f1) (unat addr) (unat n), f1)
         else (err, [], f1)))"

text \<open>
  \<^verbatim>\<open>FRAM::write(addr, buf, len)\<close>, for a non-null \<^verbatim>\<open>buf\<close> that holds at least \<^verbatim>\<open>len\<close>
  bytes: write-enable, the write transaction, write-disable. A write transaction that
  fails is taken to leave the memory array as it was.
\<close>

definition FRAM_write :: "FRAM \<Rightarrow> addr_t \<Rightarrow> u8 list \<Rightarrow> size_t \<Rightarrow> esp_err_t \<times> FRAM" where
  "FRAM_write f0 addr buf n =
     (let f = f0\<lparr>calls := calls f0 @ [Write_call addr (take (unat n) buf)]\<rparr> in
      if n = 0 then (ESP_ERR_INVALID_ARG, f)
      else if (ucast addr :: u32) + n > FRAM_SIZE_BYTES then (ESP_ERR_INVALID_ARG, f)
      else
        (let (e1, f1) = wren f True in
         if e1 \<noteq> ESP_OK then (e1, f1)
         else
           (let (err, f2) = spi_device_transmit f1 in
            if err = ESP_OK
            then wren (f2\<lparr>cells := write_cells (cells f2) (unat addr) (take (unat n) buf)\<rparr>) False
            else (err, f2))))"

section \<open>The record store: \<^verbatim>\<open>Persistent<T>\<close> of \<^verbatim>\<open>fram_store.h\<close>\<close>

text \<open>
  A value of the trivially copyable type \<^verbatim>\<open>T\<close> is its object representation, a list of
  \<^verbatim>\<open>sizeof(T)\<close> bytes. \<open>sizeof_T\<close> is the size of the template argument; the other
  fields are the members of the class (the member \<^verbatim>\<open>x_\<close> is the field \<open>m_x\<close>).
  The reference member \<^verbatim>\<open>fram_\<close> is not a field:
  every member function takes the driver and returns it, next to the object.
\<close>

record Persistent =
  sizeof_T :: size_t
  m_base :: addr_t
  m_slots :: size_t
  m_version :: u16
  m_slot_size :: size_t
  m_cache :: "u8 list"
  m_dirty :: bool
  m_last_seq :: u32

text \<open>
  The constructor. \<^verbatim>\<open>cache_\<close> is not initialised by it: \<open>cache0\<close> is whatever the
  member holds.
\<close>

definition Persistent_new :: "size_t \<Rightarrow> u8 list \<Rightarrow> addr_t \<Rightarrow> size_t \<Rightarrow> u16 \<Rightarrow> Persistent" where
  "Persistent_new szT cache0 base_addr slots ver =
     \<lparr>sizeof_T = szT, m_base = base_addr, m_slots = slots, m_version = ver,
      m_slot_size = sizeof_Header + szT, m_cache = cache0, m_dirty = False, m_last_seq = 0\<rparr>"

text \<open>\<^verbatim>\<open>a = base_ + static_cast<FRAM::addr_t>(i * slot_size_)\<close>, stored in an \<^verbatim>\<open>addr_t\<close>.\<close>

definition slot_addr :: "Persistent \<Rightarrow> size_t \<Rightarrow> addr_t" where
  "slot_addr p i = m_base p + ucast (i * m_slot_size p)"

text \<open>
  \<^verbatim>\<open>a + sizeof(Header)\<close> is computed in \<^verbatim>\<open>size_t\<close> and passed as an \<^verbatim>\<open>addr_t\<close>.
\<close>

definition payload_addr :: "addr_t \<Rightarrow> addr_t" where
  "payload_addr a = ucast ((ucast a :: size_t) + sizeof_Header)"

text \<open>The values of \<^verbatim>\<open>i\<close> in \<^verbatim>\<open>for (size_t i = 0; i < slots_; ++i)\<close>.\<close>

definition slot_indices :: "Persistent \<Rightarrow> size_t list" where
  "slot_indices p = map word_of_nat [0..<unat (m_slots p)]"

text \<open>The local variables of a scan, and the driver.\<close>

record scan =
  best :: Header
  best_addr :: addr_t
  found :: bool
  dev :: FRAM

text \<open>The body of the loop of \<^verbatim>\<open>load\<close>; each \<^verbatim>\<open>continue\<close> leaves the variables as they are.\<close>

definition load_slot :: "Persistent \<Rightarrow> size_t \<Rightarrow> scan \<Rightarrow> scan" where
  "load_slot p i s =
     (let a = slot_addr p i;
          (err, hb, f1) = FRAM_read (dev s) a sizeof_Header
      in if err \<noteq> ESP_OK then s\<lparr>dev := f1\<rparr>
         else
           (let h = Header_of_bytes hb in
            if magic h \<noteq> STORE_MAGIC \<or> version h \<noteq> m_version p \<or> len h \<noteq> sizeof_T p
            then s\<lparr>dev := f1\<rparr>
            else
              (let (err2, buf, f2) = FRAM_read f1 (payload_addr a) (len h) in
               if err2 \<noteq> ESP_OK then s\<lparr>dev := f2\<rparr>
               else if crc32 buf \<noteq> crc h then s\<lparr>dev := f2\<rparr>
               else if \<not> found s \<or> seq h > seq (best s)
               then \<lparr>best = h, best_addr = a, found = True, dev = f2\<rparr>
               else s\<lparr>dev := f2\<rparr>)))"

text \<open>The loop of \<^verbatim>\<open>load\<close>, from \<^verbatim>\<open>best_hdr{0}\<close>, \<^verbatim>\<open>best_addr = 0\<close>, \<^verbatim>\<open>found = false\<close>.\<close>

definition load_scan :: "Persistent \<Rightarrow> FRAM \<Rightarrow> scan" where
  "load_scan p f = fold (load_slot p) (slot_indices p)
     \<lparr>best = Header_zero, best_addr = 0, found = False, dev = f\<rparr>"

text \<open>
  \<^verbatim>\<open>load(dst)\<close>: the error code, the object, the caller's \<^verbatim>\<open>dst\<close> afterwards, the driver.
\<close>

definition load :: "Persistent \<Rightarrow> FRAM \<Rightarrow> u8 list \<Rightarrow> esp_err_t \<times> Persistent \<times> u8 list \<times> FRAM" where
  "load p f dst =
     (let s = load_scan p f
      in if \<not> found s then (ESP_ERR_NOT_FOUND, p, dst, dev s)
         else
           (let (err, data, f1) = FRAM_read (dev s) (payload_addr (best_addr s)) (sizeof_T p)
            in (err, p, if err = ESP_OK then data else dst, f1)))"

text \<open>
  The body of the loop of \<^verbatim>\<open>store_immediate\<close>. The result of the read is cast to
  \<^verbatim>\<open>void\<close>; \<^verbatim>\<open>Header h\<close> is declared without an initialiser, so after a failed read it
  holds whatever the storage held: \<open>uninit i\<close>, for the iteration \<open>i\<close>.
\<close>

definition store_slot :: "Persistent \<Rightarrow> (size_t \<Rightarrow> Header) \<Rightarrow> size_t \<Rightarrow> scan \<Rightarrow> scan" where
  "store_slot p uninit i s =
     (let a = slot_addr p i;
          (err, hb, f1) = FRAM_read (dev s) a sizeof_Header;
          h = (if err = ESP_OK then Header_of_bytes hb else uninit i)
      in if magic h = STORE_MAGIC \<and> version h = m_version p
         then (if \<not> found s \<or> seq h > seq (best s)
               then \<lparr>best = h, best_addr = a, found = True, dev = f1\<rparr>
               else s\<lparr>dev := f1\<rparr>)
         else s\<lparr>dev := f1\<rparr>)"

text \<open>
  \<^verbatim>\<open>static_cast<FRAM::addr_t>(((best_addr - base_) / slot_size_ + 1) % slots_) * slot_size_ + base_\<close>,
  stored in an \<^verbatim>\<open>addr_t\<close>. The difference of the two \<^verbatim>\<open>uint16_t\<close> is an \<^verbatim>\<open>int\<close>, converted
  to \<^verbatim>\<open>size_t\<close> for the division. It is evaluated only when a slot was found, so
  \<^verbatim>\<open>slots_\<close> is not zero there.
\<close>

definition next_addr :: "Persistent \<Rightarrow> addr_t \<Rightarrow> addr_t" where
  "next_addr p ba =
     ucast ((ucast (ucast ((((ucast ba :: size_t) - ucast (m_base p)) div m_slot_size p + 1)
                             mod m_slots p) :: addr_t) :: size_t)
            * m_slot_size p + ucast (m_base p))"

text \<open>
  The loop of \<^verbatim>\<open>store_immediate\<close>, from \<^verbatim>\<open>cur_best{0}\<close>, \<^verbatim>\<open>best_addr = base_\<close>,
  \<^verbatim>\<open>found = false\<close>.
\<close>

definition store_scan :: "Persistent \<Rightarrow> (size_t \<Rightarrow> Header) \<Rightarrow> FRAM \<Rightarrow> scan" where
  "store_scan p uninit f = fold (store_slot p uninit) (slot_indices p)
     \<lparr>best = Header_zero, best_addr = m_base p, found = False, dev = f\<rparr>"

text \<open>\<^verbatim>\<open>next_seq = found ? (cur_best.seq + 1) : 1\<close>\<close>

definition next_seq :: "scan \<Rightarrow> u32" where
  "next_seq s = (if found s then seq (best s) + 1 else 1)"

text \<open>\<^verbatim>\<open>next = found ? ... : base_\<close>\<close>

definition next_slot :: "Persistent \<Rightarrow> scan \<Rightarrow> addr_t" where
  "next_slot p s = (if found s then next_addr p (best_addr s) else m_base p)"

text \<open>The header that is built for \<^verbatim>\<open>src\<close>; \<^verbatim>\<open>crc32(&src, sizeof(T))\<close> reads \<^verbatim>\<open>sizeof(T)\<close> bytes.\<close>

definition new_header :: "Persistent \<Rightarrow> u32 \<Rightarrow> u8 list \<Rightarrow> Header" where
  "new_header p sq src =
     \<lparr>magic = STORE_MAGIC, version = m_version p, reserved = 0, seq = sq,
      len = sizeof_T p, crc = crc32 (take (unat (sizeof_T p)) src)\<rparr>"

text \<open>\<^verbatim>\<open>store_immediate(src)\<close>: the error code, the object and the driver afterwards.\<close>

definition store_immediate ::
  "Persistent \<Rightarrow> (size_t \<Rightarrow> Header) \<Rightarrow> FRAM \<Rightarrow> u8 list \<Rightarrow> esp_err_t \<times> Persistent \<times> FRAM" where
  "store_immediate p uninit f src =
     (let s = store_scan p uninit f;
          h = new_header p (next_seq s) src;
          (err, f1) = FRAM_write (dev s) (payload_addr (next_slot p s)) src (sizeof_T p)
      in if err \<noteq> ESP_OK then (err, p, f1)
         else
           (let (err2, f2) = FRAM_write f1 (next_slot p s) (Header_bytes h) sizeof_Header in
            if err2 \<noteq> ESP_OK then (err2, p, f2)
            else (ESP_OK, p\<lparr>m_cache := src, m_dirty := False, m_last_seq := next_seq s\<rparr>, f2)))"

text \<open>\<^verbatim>\<open>store_deferred(src)\<close> returns nothing: the object and the driver afterwards.\<close>

definition store_deferred :: "Persistent \<Rightarrow> FRAM \<Rightarrow> u8 list \<Rightarrow> Persistent \<times> FRAM" where
  "store_deferred p f src = (p\<lparr>m_cache := src, m_dirty := True\<rparr>, f)"

definition flush :: "Persistent \<Rightarrow> (size_t \<Rightarrow> Header) \<Rightarrow> FRAM \<Rightarrow> esp_err_t \<times> Persistent \<times> FRAM" where
  "flush p uninit f = (if \<not> m_dirty p then (ESP_OK, p, f) else store_immediate p uninit f (m_cache p))"

definition dirty :: "Persistent \<Rightarrow> bool" where
  "dirty p = m_dirty p"

section \<open>Observations on the driver and the slots\<close>

text \<open>A call that does not write.\<close>

fun is_read :: "io_call \<Rightarrow> bool" where
  "is_read (Read_call a n) = True"
| "is_read (Write_call a bs) = False"

text \<open>From \<open>f\<close> to \<open>f'\<close> the memory array is unchanged and only reads were called.\<close>

definition only_reads :: "FRAM \<Rightarrow> FRAM \<Rightarrow> bool" where
  "only_reads f f' \<longleftrightarrow> cells f' = cells f \<and> (\<exists>rs. calls f' = calls f @ rs \<and> list_all is_read rs)"

text \<open>No coming SPI transaction fails.\<close>

definition no_faults :: "FRAM \<Rightarrow> bool" where
  "no_faults f \<longleftrightarrow> list_all (\<lambda>e. e = ESP_OK) (spi_results f)"

text \<open>
  The configuration the README and the specification ask of the caller: a payload of at
  least one byte, at least one slot, \<^verbatim>\<open>slot_size = sizeof(Header) + sizeof(T)\<close> (as the
  constructor sets it), and all slots inside the device.
\<close>

definition layout_ok :: "Persistent \<Rightarrow> bool" where
  "layout_ok p \<longleftrightarrow>
     sizeof_T p \<noteq> 0 \<and> m_slots p \<noteq> 0 \<and> m_slot_size p = sizeof_Header + sizeof_T p \<and>
     unat (m_base p) + unat (m_slots p) * (unat sizeof_Header + unat (sizeof_T p))
       \<le> unat FRAM_SIZE_BYTES"

text \<open>
  The slots as the specification describes them, on the content \<open>m\<close> of the memory array:
  slot \<open>i\<close> starts at \<open>base + i * slot_size\<close>, the header first, the payload behind it.
  A slot is a candidate of the write path when magic and version match, and valid for the
  read path when also the length matches and the stored CRC is that of the payload.
\<close>

definition slot_base :: "Persistent \<Rightarrow> nat \<Rightarrow> nat" where
  "slot_base p i = unat (m_base p) + i * (unat sizeof_Header + unat (sizeof_T p))"

definition slot_header :: "Persistent \<Rightarrow> (nat \<Rightarrow> u8) \<Rightarrow> nat \<Rightarrow> Header" where
  "slot_header p m i = Header_of_bytes (read_cells m (slot_base p i) (unat sizeof_Header))"

definition slot_payload :: "Persistent \<Rightarrow> (nat \<Rightarrow> u8) \<Rightarrow> nat \<Rightarrow> u8 list" where
  "slot_payload p m i = read_cells m (slot_base p i + unat sizeof_Header) (unat (sizeof_T p))"

definition slot_candidate :: "Persistent \<Rightarrow> (nat \<Rightarrow> u8) \<Rightarrow> nat \<Rightarrow> bool" where
  "slot_candidate p m i \<longleftrightarrow>
     magic (slot_header p m i) = STORE_MAGIC \<and> version (slot_header p m i) = m_version p"

definition slot_valid :: "Persistent \<Rightarrow> (nat \<Rightarrow> u8) \<Rightarrow> nat \<Rightarrow> bool" where
  "slot_valid p m i \<longleftrightarrow>
     magic (slot_header p m i) = STORE_MAGIC \<and> version (slot_header p m i) = m_version p \<and>
     len (slot_header p m i) = sizeof_T p \<and>
     crc (slot_header p m i) = crc32 (slot_payload p m i)"

text \<open>
  The selection both scans make, on slot numbers: \<open>ok\<close> tells which slots pass the
  checks, \<open>sq\<close> is the sequence number of a slot, the accumulator is the best slot so
  far. \<open>is_best ok sq n b\<close> says what is selected among the slots below \<open>n\<close>: a slot
  that passes, with the highest sequence number, the first one of these.
\<close>

fun pick :: "(nat \<Rightarrow> bool) \<Rightarrow> (nat \<Rightarrow> u32) \<Rightarrow> nat option \<Rightarrow> nat \<Rightarrow> nat option" where
  "pick ok sq None i = (if ok i then Some i else None)"
| "pick ok sq (Some b) i = (if ok i \<and> sq b < sq i then Some i else Some b)"

definition is_best :: "(nat \<Rightarrow> bool) \<Rightarrow> (nat \<Rightarrow> u32) \<Rightarrow> nat \<Rightarrow> nat \<Rightarrow> bool" where
  "is_best ok sq n b \<longleftrightarrow>
     b < n \<and> ok b \<and> (\<forall>j<n. ok j \<longrightarrow> sq j \<le> sq b) \<and> (\<forall>j<b. ok j \<longrightarrow> sq j < sq b)"

text \<open>
  The variables of a scan agree with the selection \<open>acc\<close> on the memory content \<open>m\<close>,
  and no coming transaction fails.
\<close>

definition tracks :: "Persistent \<Rightarrow> (nat \<Rightarrow> u8) \<Rightarrow> nat option \<Rightarrow> scan \<Rightarrow> bool" where
  "tracks p m acc s \<longleftrightarrow>
     cells (dev s) = m \<and> no_faults (dev s) \<and>
     (case acc of
        None \<Rightarrow> \<not> found s
      | Some b \<Rightarrow> found s \<and> b < unat (m_slots p) \<and> best s = slot_header p m b \<and>
                  best_addr s = slot_addr p (word_of_nat b))"

text \<open>Whatever \<^verbatim>\<open>load\<close> has found so far is a valid slot of the memory content \<open>m\<close>.\<close>

definition accepted :: "Persistent \<Rightarrow> (nat \<Rightarrow> u8) \<Rightarrow> scan \<Rightarrow> bool" where
  "accepted p m s \<longleftrightarrow>
     cells (dev s) = m \<and>
     (found s \<longrightarrow> (\<exists>b<unat (m_slots p). slot_valid p m b \<and> best s = slot_header p m b \<and>
                      best_addr s = slot_addr p (word_of_nat b)))"

section \<open>An example configuration\<close>

text \<open>Two slots of a four-byte payload at address \<^verbatim>\<open>0x200\<close>, version 1.\<close>

definition ex_store :: Persistent where
  "ex_store = Persistent_new 4 [] 0x200 2 1"

text \<open>The same store configured with version 2.\<close>

definition ex_store_v2 :: Persistent where
  "ex_store_v2 = Persistent_new 4 [] 0x200 2 2"

text \<open>Uninitialised headers that are all zero.\<close>

definition ex_uninit :: "size_t \<Rightarrow> Header" where
  "ex_uninit = (\<lambda>i. Header_zero)"

text \<open>A header of the payload 1, 2, 3, 4 with the sequence number \<open>sq\<close>.\<close>

definition ex_record :: "u32 \<Rightarrow> Header" where
  "ex_record sq = \<lparr>magic = STORE_MAGIC, version = 1, reserved = 0, seq = sq, len = 4, crc = crc32 [1, 2, 3, 4]\<rparr>"

text \<open>
  A device whose slot 0 holds that header and payload, all other cells zero, with the
  given results of the coming SPI transactions.
\<close>

definition ex_device :: "u32 \<Rightarrow> esp_err_t list \<Rightarrow> FRAM" where
  "ex_device sq rs =
     \<lparr>cells = write_cells (write_cells (\<lambda>a. 0) 532 [1, 2, 3, 4]) 512 (Header_bytes (ex_record sq)),
      spi_results = rs, calls = []\<rparr>"

text \<open>Uninitialised headers that happen to look like a record with sequence number 41.\<close>

definition ex_stale :: "size_t \<Rightarrow> Header" where
  "ex_stale = (\<lambda>i. ex_record 41)"

section \<open>The checksum is the reference CRC-32\<close>

lemma crc_shift_ref: "crc_shift c = ref_bit c"
  unfolding crc_shift_def ref_bit_def
  by (simp add: and_one_eq mod_2_eq_odd bit_0 xor.commute)

lemma ref_bit_xor: "ref_bit (x XOR y) = ref_bit x XOR ref_bit y"
  unfolding ref_bit_def
  by (simp add: bit_xor_iff ac_simps flip: bit_0)

lemma ref_bit_even: "\<not> bit c 0 \<Longrightarrow> ref_bit c = drop_bit 1 c"
  by (simp add: ref_bit_def)

lemma ref_bit8_xor: "ref_bit8 (x XOR y) = ref_bit8 x XOR ref_bit8 y"
  by (simp add: ref_bit8_def ref_bit_xor)

lemma ref_bit_drop: "\<not> bit x n \<Longrightarrow> ref_bit (drop_bit n x) = drop_bit (n + 1) x"
  by (simp add: ref_bit_even bit_drop_bit_eq)

lemma ref_bit8_high:
  fixes x :: u32
  assumes "\<And>n. n < 8 \<Longrightarrow> \<not> bit x n"
  shows "ref_bit8 x = drop_bit 8 x"
proof -
  have s0: "ref_bit x = drop_bit 1 x" using assms[of 0] by (simp add: ref_bit_even)
  have s1: "ref_bit (drop_bit 1 x) = drop_bit 2 x" using ref_bit_drop[of x 1] assms[of 1] by (simp add: numeral_2_eq_2)
  have s2: "ref_bit (drop_bit 2 x) = drop_bit 3 x" using ref_bit_drop[of x 2] assms[of 2] by simp
  have s3: "ref_bit (drop_bit 3 x) = drop_bit 4 x" using ref_bit_drop[of x 3] assms[of 3] by simp
  have s4: "ref_bit (drop_bit 4 x) = drop_bit 5 x" using ref_bit_drop[of x 4] assms[of 4] by simp
  have s5: "ref_bit (drop_bit 5 x) = drop_bit 6 x" using ref_bit_drop[of x 5] assms[of 5] by simp
  have s6: "ref_bit (drop_bit 6 x) = drop_bit 7 x" using ref_bit_drop[of x 6] assms[of 6] by simp
  have s7: "ref_bit (drop_bit 7 x) = drop_bit 8 x" using ref_bit_drop[of x 7] assms[of 7] by simp
  show ?thesis
    unfolding ref_bit8_def by (simp only: s0 s1 s2 s3 s4 s5 s6 s7)
qed

lemma low_mask: "(0xFF::u32) = mask 8"
  by (simp add: mask_eq_exp_minus_1)

lemma split_low: "(x::u32) = (x AND 0xFF) XOR (x AND NOT 0xFF)"
  unfolding low_mask by (rule bit_eqI) (auto simp: bit_simps)

lemma table_step: "ref_bit8 (x::u32) = table_entry (x AND 0xFF) XOR drop_bit 8 x"
proof -
  have hi: "ref_bit8 (x AND NOT 0xFF) = drop_bit 8 (x AND NOT 0xFF)"
    unfolding low_mask by (rule ref_bit8_high) (auto simp: bit_simps)
  have d: "drop_bit 8 (x AND NOT 0xFF) = drop_bit 8 x"
    unfolding low_mask by (rule bit_eqI) (auto simp: bit_simps dest: bit_imp_le_length)
  have "ref_bit8 x = ref_bit8 ((x AND 0xFF) XOR (x AND NOT 0xFF))"
    using split_low[of x] by simp
  also have "\<dots> = ref_bit8 (x AND 0xFF) XOR drop_bit 8 x"
    by (simp only: ref_bit8_xor hi d)
  finally show ?thesis
    by (simp add: ref_bit8_def table_entry_def crc_shift_ref)
qed

lemma low_byte_bound: "unat ((x::u32) AND 0xFF) < 256"
proof -
  have "x AND 0xFF \<le> 0xFF" by (rule word_and_le1)
  then show ?thesis by (simp add: word_le_nat_alt)
qed

lemma build_table_nth: "build_table ! unat ((x::u32) AND 0xFF) = table_entry (x AND 0xFF)"
  using low_byte_bound[of x] by (simp add: build_table_def)

lemma drop_ucast8: "drop_bit 8 ((c::u32) XOR ucast (b::u8)) = drop_bit 8 c"
  by (rule bit_eqI) (auto simp: bit_simps dest: bit_imp_le_length)

lemma crc_byte_ref: "crc_byte build_table b c = ref_byte b c"
proof -
  have "ref_byte b c = ref_bit8 (c XOR ucast b)" by (simp add: ref_byte_def)
  then show ?thesis
    by (simp only: table_step crc_byte_def build_table_nth drop_ucast8)
qed

lemma crc32_call_init:
  "init st \<Longrightarrow> table st = build_table \<Longrightarrow> crc32_call st data = (crc32_reference data, st)"
  by (simp add: crc32_call_def crc32_reference_def crc_byte_ref[abs_def] Let_def)

lemma crc32_call_first:
  "\<not> init st \<Longrightarrow> crc32_call st data = (crc32_reference data, \<lparr>table = build_table, init = True\<rparr>)"
  by (simp add: crc32_call_def crc32_reference_def crc_byte_ref[abs_def] Let_def)

lemma reachable_statics_inv:
  "reachable_statics st \<Longrightarrow> \<not> init st \<or> st = \<lparr>table = build_table, init = True\<rparr>"
proof (induction rule: reachable_statics.induct)
  case start
  then show ?case by (simp add: crc32_statics0_def)
next
  case (call st data)
  then show ?case
    by (auto simp: crc32_call_first crc32_call_init)
qed

lemma crc32_eq_reference: "crc32 data = crc32_reference data"
  by (simp add: crc32_def crc32_call_first crc32_statics0_def)

text \<open>The check value of CRC-32: the checksum of the ASCII digits 1 to 9.\<close>

lemma crc32_check_value:
  "crc32 [0x31, 0x32, 0x33, 0x34, 0x35, 0x36, 0x37, 0x38, 0x39] = 0xCBF43926"
  by (simp add: crc32_eq_reference crc32_reference_def ref_byte_def ref_bit8_def ref_bit_def bit_0)

section \<open>A changed byte changes the checksum\<close>

lemma unat_ucast_mod: "unat (ucast (w::'a::len word) :: 'c::len word) = unat w mod 2 ^ LENGTH('c)"
  by (simp add: unsigned_ucast_eq take_bit_eq_mod)

lemma xor_cancel_right: "(a::u32) XOR c = b XOR c \<Longrightarrow> a = b"
proof -
  assume e: "a XOR c = b XOR c"
  have "a = (a XOR c) XOR c" by (simp add: xor.assoc)
  also have "\<dots> = (b XOR c) XOR c" by (simp only: e)
  also have "\<dots> = b" by (simp add: xor.assoc)
  finally show ?thesis .
qed

lemma xor_cancel_left: "(c::u32) XOR a = c XOR b \<Longrightarrow> a = b"
  using xor_cancel_right[of a c b] by (simp add: xor.commute)

lemma ref_bit_top: "bit (ref_bit c) 31 \<longleftrightarrow> bit c 0"
  by (auto simp: ref_bit_def bit_simps dest: bit_imp_le_length)

lemma ref_bit_inj: "ref_bit a = ref_bit b \<Longrightarrow> a = b"
proof -
  assume e: "ref_bit a = ref_bit b"
  then have b0: "bit a 0 \<longleftrightarrow> bit b 0"
    using ref_bit_top[of a] ref_bit_top[of b] by simp
  with e have d: "drop_bit 1 a = drop_bit 1 b"
    by (auto simp: ref_bit_def split: if_splits dest: xor_cancel_right)
  show "a = b"
  proof (rule bit_word_eqI)
    fix n
    show "bit a n \<longleftrightarrow> bit b n"
    proof (cases n)
      case 0
      with b0 show ?thesis by simp
    next
      case (Suc k)
      have "bit a (Suc k) \<longleftrightarrow> bit (drop_bit 1 a) k" by (simp add: bit_drop_bit_eq)
      also have "\<dots> \<longleftrightarrow> bit (drop_bit 1 b) k" by (simp only: d)
      also have "\<dots> \<longleftrightarrow> bit b (Suc k)" by (simp add: bit_drop_bit_eq)
      finally show ?thesis using Suc by simp
    qed
  qed
qed

lemma ref_bit8_inj: "ref_bit8 a = ref_bit8 b \<Longrightarrow> a = b"
  unfolding ref_bit8_def by (blast dest: ref_bit_inj)

lemma ref_byte_inj_state: "ref_byte x a = ref_byte x b \<Longrightarrow> a = b"
  unfolding ref_byte_def by (drule ref_bit8_inj) (rule xor_cancel_right)

lemma ucast8_inj: "(ucast (x::u8) :: u32) = ucast y \<Longrightarrow> x = y"
proof -
  assume "(ucast x :: u32) = ucast y"
  then have "unat (ucast x :: u32) = unat (ucast y :: u32)" by simp
  moreover have "unat x < 256" "unat y < 256"
    using unsigned_less[of x] unsigned_less[of y] by simp_all
  ultimately have "unat x = unat y" by (simp add: unat_ucast_mod)
  then show ?thesis by (simp add: word_unat_eq_iff)
qed

lemma ref_byte_inj_byte: "ref_byte x c = ref_byte y c \<Longrightarrow> x = y"
  unfolding ref_byte_def by (drule ref_bit8_inj) (blast dest: xor_cancel_left ucast8_inj)

lemma fold_ref_byte_inj: "fold ref_byte ys a = fold ref_byte ys b \<Longrightarrow> a = b"
  by (induction ys arbitrary: a b) (auto dest: ref_byte_inj_state)

lemma crc32_one_byte:
  assumes "x \<noteq> y"
  shows "crc32 (xs @ x # ys) \<noteq> crc32 (xs @ y # ys)"
proof
  assume "crc32 (xs @ x # ys) = crc32 (xs @ y # ys)"
  then have "fold ref_byte ys (ref_byte x (fold ref_byte xs 0xFFFFFFFF)) =
             fold ref_byte ys (ref_byte y (fold ref_byte xs 0xFFFFFFFF))"
    by (auto simp: crc32_eq_reference crc32_reference_def dest: xor_cancel_right)
  then have "x = y" by (blast dest: fold_ref_byte_inj ref_byte_inj_byte)
  with assms show False by simp
qed

lemma crc32_list_update:
  assumes "k < length xs" and "x \<noteq> xs ! k"
  shows "crc32 (xs[k := x]) \<noteq> crc32 xs"
proof -
  have "xs[k := x] = take k xs @ x # drop (Suc k) xs"
    using assms(1) by (rule upd_conv_take_nth_drop)
  moreover have "xs = take k xs @ xs ! k # drop (Suc k) xs"
    using assms(1) by (rule id_take_nth_drop)
  ultimately show ?thesis
    using crc32_one_byte[OF assms(2), of "take k xs" "drop (Suc k) xs"] by metis
qed

section \<open>Header bytes and memory cells\<close>

lemma u32_roundtrip: "u32_of_bytes (bytes_of_u32 w) = w"
proof (rule bit_word_eqI)
  fix n
  assume "n < LENGTH(32)"
  then consider "n < 8" | "8 \<le> n \<and> n < 16" | "16 \<le> n \<and> n < 24" | "24 \<le> n \<and> n < 32"
    by fastforce
  then show "bit (u32_of_bytes (bytes_of_u32 w)) n = bit w n"
    unfolding u32_of_bytes_def bytes_of_u32_def
    by cases (auto simp: bit_simps)
qed

lemma u16_roundtrip: "u16_of_bytes (bytes_of_u16 w) = w"
  unfolding u16_of_bytes_def bytes_of_u16_def
  by (rule bit_eqI) (auto simp: bit_simps)

lemma length_Header_bytes: "length (Header_bytes h) = 20"
  by (simp add: Header_bytes_def bytes_of_u32_def bytes_of_u16_def)

lemma Header_roundtrip: "Header_of_bytes (Header_bytes h) = h"
proof -
  have l4: "length (bytes_of_u32 w) = 4" for w by (simp add: bytes_of_u32_def)
  have l2: "length (bytes_of_u16 w) = 2" for w by (simp add: bytes_of_u16_def)
  show ?thesis
    by (simp add: Header_of_bytes_def Header_bytes_def l4 l2 u32_roundtrip u16_roundtrip)
qed

lemma read_write_same: "read_cells (write_cells m a bs) a (length bs) = bs"
  by (rule nth_equalityI) (auto simp: read_cells_def write_cells_def)

lemma read_write_other:
  "c + n \<le> a \<or> a + length bs \<le> c \<Longrightarrow> read_cells (write_cells m a bs) c n = read_cells m c n"
  by (auto simp: read_cells_def write_cells_def)


lemma read_cells_upd_outside:
  "a < c \<or> c + n \<le> a \<Longrightarrow> read_cells (m(a := x)) c n = read_cells m c n"
  by (auto simp: read_cells_def)

lemma read_cells_upd_inside:
  "k < n \<Longrightarrow> read_cells (m(c + k := x)) c n = (read_cells m c n)[k := x]"
  by (rule nth_equalityI) (auto simp: read_cells_def)

section \<open>What the calls do to the driver\<close>

lemma spi_frame:
  "spi_device_transmit f = (e, f') \<Longrightarrow> cells f' = cells f \<and> calls f' = calls f"
  by (auto simp: spi_device_transmit_def split: list.splits)

lemma FRAM_read_frame:
  "FRAM_read f a n = (e, d, f') \<Longrightarrow> cells f' = cells f \<and> calls f' = calls f @ [Read_call a n]"
  by (auto simp: FRAM_read_def Let_def split: if_splits prod.splits dest!: spi_frame)

lemma FRAM_write_trace:
  "FRAM_write f a buf n = (e, f') \<Longrightarrow> calls f' = calls f @ [Write_call a (take (unat n) buf)]"
  by (auto simp: FRAM_write_def wren_def Let_def split: if_splits prod.splits dest!: spi_frame)

lemma FRAM_write_calls:
  "calls (snd (FRAM_write f a buf n)) = calls f @ [Write_call a (take (unat n) buf)]"
  using FRAM_write_trace[of f a buf n] by (cases "FRAM_write f a buf n") simp

lemma only_reads_refl: "only_reads f f"
  by (simp add: only_reads_def)

lemma only_reads_trans: "only_reads f g \<Longrightarrow> only_reads g h \<Longrightarrow> only_reads f h"
  by (auto simp: only_reads_def)

lemma only_reads_FRAM_read': "FRAM_read f a n = (e, d, f') \<Longrightarrow> only_reads f f'"
  by (auto simp: only_reads_def dest!: FRAM_read_frame)

lemma only_reads_FRAM_read: "only_reads f (snd (snd (FRAM_read f a n)))"
  using only_reads_FRAM_read'[of f a n] by (cases "FRAM_read f a n") simp

lemma load_slot_only_reads: "only_reads (dev s) (dev (load_slot p i s))"
  by (auto simp: load_slot_def Let_def only_reads_refl split: prod.split
      dest!: only_reads_FRAM_read' intro: only_reads_trans)

lemma store_slot_only_reads: "only_reads (dev s) (dev (store_slot p u i s))"
  by (auto simp: store_slot_def Let_def only_reads_refl split: prod.split
      dest!: only_reads_FRAM_read' intro: only_reads_trans)

lemma fold_load_slot_only_reads: "only_reads (dev s) (dev (fold (load_slot p) is s))"
proof (induction "is" arbitrary: s)
  case Nil
  show ?case by (simp add: only_reads_refl)
next
  case (Cons i "is")
  show ?case
    using only_reads_trans[OF load_slot_only_reads[of s p i] Cons.IH[of "load_slot p i s"]]
    by simp
qed

lemma fold_store_slot_only_reads: "only_reads (dev s) (dev (fold (store_slot p u) is s))"
proof (induction "is" arbitrary: s)
  case Nil
  show ?case by (simp add: only_reads_refl)
next
  case (Cons i "is")
  show ?case
    using only_reads_trans[OF store_slot_only_reads[of s p u i] Cons.IH[of "store_slot p u i s"]]
    by simp
qed

lemma load_scan_only_reads: "only_reads f (dev (load_scan p f))"
  using fold_load_slot_only_reads[of "\<lparr>best = Header_zero, best_addr = 0, found = False, dev = f\<rparr>" p]
  by (simp add: load_scan_def)

lemma store_scan_only_reads: "only_reads f (dev (store_scan p u f))"
  using fold_store_slot_only_reads[of "\<lparr>best = Header_zero, best_addr = m_base p, found = False, dev = f\<rparr>" p u]
  by (simp add: store_scan_def)


lemma load_slot_reads_header:
  "\<exists>rs. calls (dev (load_slot p i s)) = calls (dev s) @ Read_call (slot_addr p i) sizeof_Header # rs"
  by (auto simp: load_slot_def Let_def split: prod.split dest!: FRAM_read_frame)

lemma fold_load_slot_visits:
  "i \<in> set is \<Longrightarrow>
     Read_call (slot_addr p i) sizeof_Header \<in> set (calls (dev (fold (load_slot p) is s)))"
proof (induction "is" arbitrary: s)
  case Nil
  then show ?case by simp
next
  case (Cons j "is")
  show ?case
  proof (cases "i = j")
    case True
    from load_slot_reads_header[of p j s] obtain rs where
      "calls (dev (load_slot p j s)) = calls (dev s) @ Read_call (slot_addr p j) sizeof_Header # rs"
      by blast
    moreover from fold_load_slot_only_reads[of "load_slot p j s" p "is"] obtain rs' where
      "calls (dev (fold (load_slot p) is (load_slot p j s))) = calls (dev (load_slot p j s)) @ rs'"
      by (auto simp: only_reads_def)
    ultimately show ?thesis using True by simp
  next
    case False
    with Cons.prems have "i \<in> set is" by simp
    from Cons.IH[OF this] show ?thesis by simp
  qed
qed

lemma load_slot_keeps_or_read:
  "(best (load_slot p i s) = best s \<and> best_addr (load_slot p i s) = best_addr s \<and>
    found (load_slot p i s) = found s) \<or>
   (\<exists>hb f1 buf f2.
      FRAM_read (dev s) (slot_addr p i) sizeof_Header = (ESP_OK, hb, f1) \<and>
      FRAM_read f1 (payload_addr (slot_addr p i)) (sizeof_T p) = (ESP_OK, buf, f2))"
  by (auto simp: load_slot_def Let_def split: prod.split)

section \<open>Addresses of the slots\<close>

lemma layout_facts:
  assumes "layout_ok p" and "i < unat (m_slots p)"
  shows "slot_base p i + 20 + unat (sizeof_T p) \<le> 8192"
    and "unat (m_slot_size p) = 20 + unat (sizeof_T p)"
    and "0 < unat (sizeof_T p)"
proof -
  let ?S = "20 + unat (sizeof_T p)"
  from assms(1) have b: "unat (m_base p) + unat (m_slots p) * ?S \<le> 8192"
    and ss: "m_slot_size p = 20 + sizeof_T p" and t0: "sizeof_T p \<noteq> 0"
    by (simp_all add: layout_ok_def sizeof_Header_def FRAM_SIZE_BYTES_def)
  from assms(2) have "Suc i \<le> unat (m_slots p)" by simp
  then have "Suc i * ?S \<le> unat (m_slots p) * ?S" by (rule mult_le_mono1)
  with b have c: "unat (m_base p) + Suc i * ?S \<le> 8192" by linarith
  then show 1: "slot_base p i + 20 + unat (sizeof_T p) \<le> 8192"
    by (simp add: slot_base_def sizeof_Header_def)
  from c have "?S \<le> 8192" by simp
  then show "unat (m_slot_size p) = 20 + unat (sizeof_T p)"
    by (simp add: ss unat_word_ariths)
  from t0 show "0 < unat (sizeof_T p)" by (simp add: unat_gt_0)
qed

lemma slot_addr_unat:
  assumes "layout_ok p" and "i < unat (m_slots p)"
  shows "unat (slot_addr p (word_of_nat i)) = slot_base p i"
proof -
  note lf = layout_facts[OF assms]
  let ?S = "20 + unat (sizeof_T p)"
  have bnd: "unat (m_base p) + i * ?S \<le> 8192"
    using lf(1) by (simp add: slot_base_def sizeof_Header_def)
  have i: "unat (word_of_nat i :: u32) = i"
  proof -
    have "unat (m_slots p) < 2 ^ 32" using unsigned_less[of "m_slots p"] by simp
    with assms(2) show ?thesis by (simp add: unat_of_nat)
  qed
  have "unat (word_of_nat i * m_slot_size p) = i * ?S"
    using bnd by (simp add: unat_word_ariths i lf(2))
  then have "unat (ucast (word_of_nat i * m_slot_size p) :: u16) = i * ?S"
    using bnd by (simp add: unat_ucast_mod)
  then show ?thesis
    using bnd by (simp add: slot_addr_def unat_word_ariths slot_base_def sizeof_Header_def)
qed

lemma payload_addr_unat:
  assumes "unat a + 20 \<le> 8192"
  shows "unat (payload_addr a) = unat a + 20"
proof -
  have "unat ((ucast a :: u32) + 20) = unat a + 20"
    using assms by (simp add: unat_word_ariths unat_ucast_mod)
  then show ?thesis
    using assms by (simp add: payload_addr_def sizeof_Header_def unat_ucast_mod)
qed

lemma bounds_ok:
  assumes "unat (a::addr_t) + unat (n::size_t) \<le> 8192"
  shows "\<not> (ucast a :: u32) + n > FRAM_SIZE_BYTES"
proof -
  have "unat ((ucast a :: u32) + n) = unat a + unat n"
    using assms by (simp add: unat_word_ariths unat_ucast_mod)
  then show ?thesis
    using assms by (simp add: word_less_nat_alt FRAM_SIZE_BYTES_def)
qed

lemma next_addr_unat:
  assumes lay: "layout_ok p" and b: "b < unat (m_slots p)"
  shows "unat (next_addr p (slot_addr p (word_of_nat b))) = slot_base p (Suc b mod unat (m_slots p))"
proof -
  let ?B = "unat (m_base p)" and ?S = "20 + unat (sizeof_T p)" and ?N = "unat (m_slots p)"
  let ?t = "Suc b mod ?N"
  note lf = layout_facts[OF lay b]
  have S: "unat (m_slot_size p) = ?S" by (rule lf(2))
  have t: "?t < ?N" using b by simp
  note lt = layout_facts[OF lay t]
  have bb: "?B + b * ?S + ?S \<le> 8192" using lf(1) by (simp add: slot_base_def sizeof_Header_def)
  have tb: "?B + ?t * ?S + ?S \<le> 8192" using lt(1) by (simp add: slot_base_def sizeof_Header_def)
  have ba: "unat (slot_addr p (word_of_nat b)) = ?B + b * ?S"
    using slot_addr_unat[OF lay b] by (simp add: slot_base_def sizeof_Header_def)
  have N: "?N \<le> 8192"
  proof -
    have "?N \<le> ?N * ?S" by simp
    moreover have "?B + ?N * ?S \<le> 8192"
      using lay by (simp add: layout_ok_def sizeof_Header_def FRAM_SIZE_BYTES_def)
    ultimately show ?thesis by linarith
  qed
  define x1 where "x1 = (ucast (slot_addr p (word_of_nat b)) :: u32) - ucast (m_base p)"
  define x2 where "x2 = x1 div m_slot_size p"
  define x4 where "x4 = (x2 + 1) mod m_slots p"
  define x5 where "x5 = (ucast x4 :: addr_t)"
  define x7 where "x7 = (ucast x5 :: u32) * m_slot_size p"
  define x8 where "x8 = x7 + ucast (m_base p)"
  have u1: "unat x1 = b * ?S"
  proof -
    have "(ucast (m_base p) :: u32) \<le> ucast (slot_addr p (word_of_nat b))"
      using ba bb by (simp add: word_le_nat_alt unat_ucast_mod)
    then have "unat x1 = unat (ucast (slot_addr p (word_of_nat b)) :: u32) - unat (ucast (m_base p) :: u32)"
      unfolding x1_def by (rule unat_sub)
    then show ?thesis using ba bb by (simp add: unat_ucast_mod)
  qed
  have u2: "unat x2 = b"
    unfolding x2_def by (simp add: unat_div u1 S)
  have u3: "unat (x2 + 1) = Suc b"
    using b N by (simp add: unat_word_ariths u2)
  have u4: "unat x4 = ?t"
    unfolding x4_def by (simp add: unat_mod u3)
  have u5: "unat x5 = ?t"
    unfolding x5_def using t N by (simp add: unat_ucast_mod u4)
  have t32: "?t < 4294967296" using t N by linarith
  have p32: "?t * ?S < 4294967296" using tb by linarith
  have u7: "unat x7 = ?t * ?S"
    unfolding x7_def using t32 p32 by (simp add: unat_word_ariths unat_ucast_mod u5 S)
  have u8: "unat x8 = ?t * ?S + ?B"
    unfolding x8_def using tb by (simp add: unat_word_ariths unat_ucast_mod u7)
  have "unat (ucast x8 :: addr_t) = ?B + ?t * ?S"
    using tb by (simp add: unat_ucast_mod u8)
  moreover have "next_addr p (slot_addr p (word_of_nat b)) = ucast x8"
    by (simp add: next_addr_def x8_def x7_def x5_def x4_def x2_def x1_def)
  ultimately show ?thesis
    by (simp add: slot_base_def sizeof_Header_def)
qed

lemma slot_disjoint:
  assumes "j \<noteq> (t::nat)"
  shows "slot_base p j + (20 + unat (sizeof_T p)) \<le> slot_base p t \<or>
         slot_base p t + (20 + unat (sizeof_T p)) \<le> slot_base p j"
proof -
  let ?S = "20 + unat (sizeof_T p)"
  from assms consider "Suc j \<le> t" | "Suc t \<le> j" by linarith
  then show ?thesis
  proof cases
    case 1
    then have "Suc j * ?S \<le> t * ?S" by (rule mult_le_mono1)
    then show ?thesis by (simp add: slot_base_def sizeof_Header_def)
  next
    case 2
    then have "Suc t * ?S \<le> j * ?S" by (rule mult_le_mono1)
    then show ?thesis by (simp add: slot_base_def sizeof_Header_def)
  qed
qed

text \<open>The memory after a header and a payload have been put into slot t.\<close>

lemma written_slot:
  fixes m :: "nat \<Rightarrow> u8" and t :: nat
  assumes "length hb = 20" and "length pl = unat (sizeof_T p)"
  defines "m' \<equiv> write_cells (write_cells m (slot_base p t + 20) pl) (slot_base p t) hb"
  shows "slot_header p m' t = Header_of_bytes hb"
    and "slot_payload p m' t = pl"
    and "j \<noteq> t \<Longrightarrow> slot_header p m' j = slot_header p m j"
    and "j \<noteq> t \<Longrightarrow> slot_payload p m' j = slot_payload p m j"
proof -
  show "slot_header p m' t = Header_of_bytes hb"
    using read_write_same[of _ "slot_base p t" hb] assms(1)
    by (simp add: slot_header_def m'_def sizeof_Header_def)
  have "slot_payload p m' t = read_cells (write_cells m (slot_base p t + 20) pl) (slot_base p t + 20) (length pl)"
    unfolding slot_payload_def m'_def using assms(1,2)
    by (simp add: read_write_other sizeof_Header_def)
  then show "slot_payload p m' t = pl" by (simp add: read_write_same)
next
  assume "j \<noteq> t"
  note d = slot_disjoint[OF this, of p]
  show "slot_header p m' j = slot_header p m j"
    unfolding slot_header_def m'_def using assms(1,2) d
    by (simp add: sizeof_Header_def) (auto simp: read_write_other)
  show "slot_payload p m' j = slot_payload p m j"
    unfolding slot_payload_def m'_def using assms(1,2) d
    by (simp add: sizeof_Header_def) (auto simp: read_write_other)
qed

text \<open>One cell of the payload of slot t is changed.\<close>

lemma corrupted_slot:
  fixes m :: "nat \<Rightarrow> u8" and t :: nat and x :: u8
  assumes k: "k < unat (sizeof_T p)"
  defines "m2 \<equiv> m(slot_base p t + 20 + k := x)"
  shows "slot_header p m2 j = slot_header p m j"
    and "slot_payload p m2 t = (slot_payload p m t)[k := x]"
    and "j \<noteq> t \<Longrightarrow> slot_payload p m2 j = slot_payload p m j"
proof -
  show "slot_header p m2 j = slot_header p m j"
  proof (cases "j = t")
    case True
    then show ?thesis
      unfolding slot_header_def m2_def
      by (simp add: read_cells_upd_outside sizeof_Header_def)
  next
    case False
    from slot_disjoint[OF this, of p] k show ?thesis
      unfolding slot_header_def m2_def
      by (auto simp: read_cells_upd_outside sizeof_Header_def)
  qed
  show "slot_payload p m2 t = (slot_payload p m t)[k := x]"
    unfolding slot_payload_def m2_def
    using k read_cells_upd_inside[of k "unat (sizeof_T p)" m "slot_base p t + 20" x]
    by (simp add: sizeof_Header_def add.assoc)
next
  assume "j \<noteq> t"
  from slot_disjoint[OF this, of p] k show "slot_payload p m2 j = slot_payload p m j"
    unfolding slot_payload_def m2_def
    by (auto simp: read_cells_upd_outside sizeof_Header_def)
qed

section \<open>The scans without transport faults\<close>

lemma spi_no_faults:
  "no_faults f \<Longrightarrow> \<exists>f'. spi_device_transmit f = (ESP_OK, f') \<and> cells f' = cells f \<and> no_faults f'"
  by (auto simp: spi_device_transmit_def no_faults_def split: list.splits)

lemma FRAM_read_ok:
  assumes "no_faults f" and "n \<noteq> 0" and "unat a + unat n \<le> 8192"
  shows "\<exists>f'. FRAM_read f a n = (ESP_OK, read_cells (cells f) (unat a) (unat n), f') \<and>
              cells f' = cells f \<and> no_faults f'"
proof -
  let ?g = "f\<lparr>calls := calls f @ [Read_call a n]\<rparr>"
  have "no_faults ?g" using assms(1) by (simp add: no_faults_def)
  from spi_no_faults[OF this] obtain f' where
    "spi_device_transmit ?g = (ESP_OK, f')" "cells f' = cells f" "no_faults f'" by auto
  then show ?thesis
    using assms(2) bounds_ok[OF assms(3)] by (simp add: FRAM_read_def Let_def)
qed

lemma FRAM_write_ok:
  assumes "no_faults f" and "n \<noteq> 0" and "unat a + unat n \<le> 8192"
  shows "\<exists>f'. FRAM_write f a buf n = (ESP_OK, f') \<and>
              cells f' = write_cells (cells f) (unat a) (take (unat n) buf) \<and> no_faults f'"
proof -
  let ?g = "f\<lparr>calls := calls f @ [Write_call a (take (unat n) buf)]\<rparr>"
  have "no_faults ?g" using assms(1) by (simp add: no_faults_def)
  from spi_no_faults[OF this] obtain f1 where
    1: "spi_device_transmit ?g = (ESP_OK, f1)" "cells f1 = cells f" "no_faults f1" by auto
  from spi_no_faults[OF 1(3)] obtain f2 where
    2: "spi_device_transmit f1 = (ESP_OK, f2)" "cells f2 = cells f1" "no_faults f2" by auto
  let ?h = "f2\<lparr>cells := write_cells (cells f2) (unat a) (take (unat n) buf)\<rparr>"
  have "no_faults ?h" using 2(3) by (simp add: no_faults_def)
  from spi_no_faults[OF this] obtain f3 where
    3: "spi_device_transmit ?h = (ESP_OK, f3)" "cells f3 = cells ?h" "no_faults f3" by auto
  show ?thesis
    using assms(2) bounds_ok[OF assms(3)] 1 2 3
    by (simp add: FRAM_write_def wren_def Let_def)
qed

lemma pick_upto_None:
  "foldl (pick ok sq) None [0..<n] = None \<longleftrightarrow> (\<forall>i<n. \<not> ok i)"
proof (induction n)
  case 0
  show ?case by simp
next
  case (Suc n)
  show ?case
  proof (cases "foldl (pick ok sq) None [0..<n]")
    case None
    with Suc show ?thesis by (auto simp: less_Suc_eq)
  next
    case (Some b)
    with Suc show ?thesis by (auto simp: less_Suc_eq)
  qed
qed

lemma pick_upto_Some:
  "foldl (pick ok sq) None [0..<n] = Some b \<Longrightarrow> is_best ok sq n b"
proof (induction n arbitrary: b)
  case 0
  then show ?case by simp
next
  case (Suc n)
  show ?case
  proof (cases "foldl (pick ok sq) None [0..<n]")
    case None
    then have no: "\<forall>i<n. \<not> ok i" by (simp add: pick_upto_None)
    from Suc.prems None have "ok n" "b = n" by (auto split: if_splits)
    with no show ?thesis by (auto simp: is_best_def less_Suc_eq)
  next
    case (Some c)
    from Suc.IH[OF Some] have c: "is_best ok sq n c" .
    show ?thesis
    proof (cases "ok n \<and> sq c < sq n")
      case True
      with Suc.prems Some have "b = n" by simp
      with True c show ?thesis
        by (fastforce simp: is_best_def less_Suc_eq)
    next
      case False
      with Suc.prems Some have "b = c" by auto
      with False c show ?thesis
        by (auto simp: is_best_def less_Suc_eq not_less)
    qed
  qed
qed

lemma is_best_unique: "is_best ok sq n b \<Longrightarrow> is_best ok sq n c \<Longrightarrow> b = c"
  unfolding is_best_def by (metis linorder_neqE_nat not_less)

lemma load_slot_tracks:
  assumes lay: "layout_ok p" and i: "i < unat (m_slots p)" and tr: "tracks p m acc s"
  shows "tracks p m (pick (slot_valid p m) (\<lambda>j. seq (slot_header p m j)) acc i)
           (load_slot p (word_of_nat i) s)"
proof -
  note lf = layout_facts[OF lay i]
  let ?a = "slot_addr p (word_of_nat i)"
  have a: "unat ?a = slot_base p i" by (rule slot_addr_unat[OF lay i])
  from tr have c: "cells (dev s) = m" and nf: "no_faults (dev s)" by (simp_all add: tracks_def)
  have "unat ?a + unat sizeof_Header \<le> 8192" using lf(1) a by (simp add: sizeof_Header_def)
  from FRAM_read_ok[OF nf _ this] obtain f1 where
    r1: "FRAM_read (dev s) ?a sizeof_Header = (ESP_OK, read_cells m (slot_base p i) (unat sizeof_Header), f1)"
    and c1: "cells f1 = m" and nf1: "no_faults f1"
    using a c by (auto simp: sizeof_Header_def)
  have pa: "unat (payload_addr ?a) = slot_base p i + 20"
    using payload_addr_unat[of ?a] lf(1) a by simp
  have t0: "sizeof_T p \<noteq> 0" using lf(3) by auto
  have "unat (payload_addr ?a) + unat (sizeof_T p) \<le> 8192" using lf(1) pa by simp
  from FRAM_read_ok[OF nf1 t0 this] obtain f2 where
    r2: "FRAM_read f1 (payload_addr ?a) (sizeof_T p) = (ESP_OK, slot_payload p m i, f2)"
    and c2: "cells f2 = m" and nf2: "no_faults f2"
    using pa c1 by (auto simp: slot_payload_def sizeof_Header_def)
  show ?thesis
  proof (cases acc)
    case None
    with tr r1 r2 c1 c2 nf1 nf2 i show ?thesis
      by (auto simp: load_slot_def Let_def tracks_def slot_valid_def 
          slot_header_def[symmetric])
  next
    case (Some b)
    with tr r1 r2 c1 c2 nf1 nf2 i show ?thesis
      by (auto simp: load_slot_def Let_def tracks_def slot_valid_def
          slot_header_def[symmetric])
  qed
qed

lemma store_slot_tracks:
  assumes lay: "layout_ok p" and i: "i < unat (m_slots p)" and tr: "tracks p m acc s"
  shows "tracks p m (pick (slot_candidate p m) (\<lambda>j. seq (slot_header p m j)) acc i)
           (store_slot p uninit (word_of_nat i) s)"
proof -
  note lf = layout_facts[OF lay i]
  let ?a = "slot_addr p (word_of_nat i)"
  have a: "unat ?a = slot_base p i" by (rule slot_addr_unat[OF lay i])
  from tr have c: "cells (dev s) = m" and nf: "no_faults (dev s)" by (simp_all add: tracks_def)
  have "unat ?a + unat sizeof_Header \<le> 8192" using lf(1) a by (simp add: sizeof_Header_def)
  from FRAM_read_ok[OF nf _ this] obtain f1 where
    r1: "FRAM_read (dev s) ?a sizeof_Header = (ESP_OK, read_cells m (slot_base p i) (unat sizeof_Header), f1)"
    and c1: "cells f1 = m" and nf1: "no_faults f1"
    using a c by (auto simp: sizeof_Header_def)
  show ?thesis
  proof (cases acc)
    case None
    with tr r1 c1 nf1 i show ?thesis
      by (auto simp: store_slot_def Let_def tracks_def slot_candidate_def
          slot_header_def[symmetric])
  next
    case (Some b)
    with tr r1 c1 nf1 i show ?thesis
      by (auto simp: store_slot_def Let_def tracks_def slot_candidate_def
          slot_header_def[symmetric])
  qed
qed

lemma fold_load_tracks:
  assumes "layout_ok p" and "\<forall>i\<in>set is. i < unat (m_slots p)" and "tracks p m acc s"
  shows "tracks p m (foldl (pick (slot_valid p m) (\<lambda>j. seq (slot_header p m j))) acc is)
           (fold (load_slot p) (map word_of_nat is) s)"
  using assms(2,3)
proof (induction "is" arbitrary: acc s)
  case Nil
  then show ?case by simp
next
  case (Cons i "is")
  from Cons.prems have "i < unat (m_slots p)" by simp
  from load_slot_tracks[OF assms(1) this Cons.prems(2)] Cons.IH Cons.prems(1)
  show ?case by simp
qed

lemma fold_store_tracks:
  assumes "layout_ok p" and "\<forall>i\<in>set is. i < unat (m_slots p)" and "tracks p m acc s"
  shows "tracks p m (foldl (pick (slot_candidate p m) (\<lambda>j. seq (slot_header p m j))) acc is)
           (fold (store_slot p uninit) (map word_of_nat is) s)"
  using assms(2,3)
proof (induction "is" arbitrary: acc s)
  case Nil
  then show ?case by simp
next
  case (Cons i "is")
  from Cons.prems have "i < unat (m_slots p)" by simp
  from store_slot_tracks[OF assms(1) this Cons.prems(2)] Cons.IH Cons.prems(1)
  show ?case by simp
qed

lemma load_scan_tracks:
  assumes "layout_ok p" and "no_faults f"
  shows "tracks p (cells f)
           (foldl (pick (slot_valid p (cells f)) (\<lambda>j. seq (slot_header p (cells f) j))) None
              [0..<unat (m_slots p)])
           (load_scan p f)"
  unfolding load_scan_def slot_indices_def
  by (rule fold_load_tracks[OF assms(1)]) (use assms(2) in \<open>simp_all add: tracks_def\<close>)

lemma store_scan_tracks:
  assumes "layout_ok p" and "no_faults f"
  shows "tracks p (cells f)
           (foldl (pick (slot_candidate p (cells f)) (\<lambda>j. seq (slot_header p (cells f) j))) None
              [0..<unat (m_slots p)])
           (store_scan p uninit f)"
  unfolding store_scan_def slot_indices_def
  by (rule fold_store_tracks[OF assms(1)]) (use assms(2) in \<open>simp_all add: tracks_def\<close>)

lemma load_no_faults:
  assumes lay: "layout_ok p" and nf: "no_faults f"
  shows "\<exists>f'. cells f' = cells f \<and> no_faults f' \<and>
     load p f dst =
       (case foldl (pick (slot_valid p (cells f)) (\<lambda>j. seq (slot_header p (cells f) j))) None
               [0..<unat (m_slots p)] of
          None \<Rightarrow> (ESP_ERR_NOT_FOUND, p, dst, f')
        | Some b \<Rightarrow> (ESP_OK, p, slot_payload p (cells f) b, f'))"
proof -
  let ?m = "cells f"
  let ?r = "foldl (pick (slot_valid p ?m) (\<lambda>j. seq (slot_header p ?m j))) None [0..<unat (m_slots p)]"
  let ?s = "load_scan p f"
  have tr: "tracks p ?m ?r ?s" by (rule load_scan_tracks[OF lay nf])
  show ?thesis
  proof (cases ?r)
    case None
    with tr show ?thesis by (auto simp: tracks_def load_def Let_def)
  next
    case (Some b)
    with tr have fs: "found ?s" and b: "b < unat (m_slots p)"
      and ba: "best_addr ?s = slot_addr p (word_of_nat b)"
      and c: "cells (dev ?s) = ?m" and nfs: "no_faults (dev ?s)"
      by (simp_all add: tracks_def)
    note lf = layout_facts[OF lay b]
    let ?a = "slot_addr p (word_of_nat b)"
    have a: "unat ?a = slot_base p b" by (rule slot_addr_unat[OF lay b])
    have pa: "unat (payload_addr ?a) = slot_base p b + 20"
      using payload_addr_unat[of ?a] lf(1) a by simp
    have t0: "sizeof_T p \<noteq> 0" using lf(3) by auto
    have "unat (payload_addr ?a) + unat (sizeof_T p) \<le> 8192" using lf(1) pa by simp
    from FRAM_read_ok[OF nfs t0 this] obtain f2 where
      "FRAM_read (dev ?s) (payload_addr ?a) (sizeof_T p) = (ESP_OK, slot_payload p ?m b, f2)"
      "cells f2 = ?m" "no_faults f2"
      using pa c by (auto simp: slot_payload_def sizeof_Header_def)
    with Some fs ba show ?thesis by (auto simp: load_def Let_def)
  qed
qed

lemma load_spec:
  assumes "layout_ok p" and "no_faults f"
  shows "case load p f dst of (e, p', dst', f') \<Rightarrow>
     cells f' = cells f \<and>
     (if \<exists>i<unat (m_slots p). slot_valid p (cells f) i
      then e = ESP_OK \<and>
           (\<exists>b. is_best (slot_valid p (cells f)) (\<lambda>j. seq (slot_header p (cells f) j))
                   (unat (m_slots p)) b \<and>
                 dst' = slot_payload p (cells f) b)
      else e = ESP_ERR_NOT_FOUND \<and> dst' = dst)"
proof -
  let ?r = "foldl (pick (slot_valid p (cells f)) (\<lambda>j. seq (slot_header p (cells f) j))) None
              [0..<unat (m_slots p)]"
  from load_no_faults[OF assms, of dst] obtain f' where
    c: "cells f' = cells f" and
    l: "load p f dst = (case ?r of None \<Rightarrow> (ESP_ERR_NOT_FOUND, p, dst, f')
                        | Some b \<Rightarrow> (ESP_OK, p, slot_payload p (cells f) b, f'))"
    by blast
  show ?thesis
  proof (cases ?r)
    case None
    then have "\<not> (\<exists>i<unat (m_slots p). slot_valid p (cells f) i)"
      by (simp add: pick_upto_None)
    with None l c show ?thesis by auto
  next
    case (Some b)
    from pick_upto_Some[OF Some] have ib: "is_best (slot_valid p (cells f)) (\<lambda>j. seq (slot_header p (cells f) j))
                   (unat (m_slots p)) b" .
    then have "\<exists>i<unat (m_slots p). slot_valid p (cells f) i"
      by (auto simp: is_best_def)
    with Some l c ib show ?thesis by auto
  qed
qed

lemma store_no_faults:
  assumes lay: "layout_ok p" and nf: "no_faults f"
  shows "\<exists>f' t sq.
     store_immediate p uninit f src =
       (ESP_OK, p\<lparr>m_cache := src, m_dirty := False, m_last_seq := sq\<rparr>, f') \<and>
     no_faults f' \<and> t < unat (m_slots p) \<and>
     cells f' = write_cells (write_cells (cells f) (slot_base p t + 20) (take (unat (sizeof_T p)) src))
                  (slot_base p t) (Header_bytes (new_header p sq src)) \<and>
     (case foldl (pick (slot_candidate p (cells f)) (\<lambda>j. seq (slot_header p (cells f) j))) None
              [0..<unat (m_slots p)] of
        None \<Rightarrow> t = 0 \<and> sq = 1
      | Some b \<Rightarrow> t = Suc b mod unat (m_slots p) \<and> sq = seq (slot_header p (cells f) b) + 1)"
proof -
  let ?m = "cells f" and ?N = "unat (m_slots p)"
  let ?r = "foldl (pick (slot_candidate p ?m) (\<lambda>j. seq (slot_header p ?m j))) None [0..<?N]"
  let ?s = "store_scan p uninit f"
  have tr: "tracks p ?m ?r ?s" by (rule store_scan_tracks[OF lay nf])
  then have c: "cells (dev ?s) = ?m" and nfs: "no_faults (dev ?s)" by (simp_all add: tracks_def)
  have N0: "0 < ?N" using lay by (simp add: layout_ok_def unat_gt_0)
  define t where "t = (case ?r of None \<Rightarrow> 0 | Some b \<Rightarrow> Suc b mod ?N)"
  define sq where "sq = (case ?r of None \<Rightarrow> 1 | Some b \<Rightarrow> seq (slot_header p ?m b) + 1)"
  have t: "t < ?N" using N0 by (simp add: t_def split: option.split)
  note lf = layout_facts[OF lay t]
  have ns: "unat (next_slot p ?s) = slot_base p t"
  proof (cases ?r)
    case None
    with tr show ?thesis by (simp add: tracks_def next_slot_def t_def slot_base_def)
  next
    case (Some b)
    with tr have "found ?s" "b < ?N" "best_addr ?s = slot_addr p (word_of_nat b)"
      by (simp_all add: tracks_def)
    with Some next_addr_unat[OF lay \<open>b < ?N\<close>] show ?thesis
      by (simp add: next_slot_def t_def)
  qed
  have sqe: "next_seq ?s = sq"
  proof (cases ?r)
    case None
    with tr show ?thesis by (simp add: tracks_def next_seq_def sq_def)
  next
    case (Some b)
    with tr show ?thesis by (simp add: tracks_def next_seq_def sq_def)
  qed
  have pa: "unat (payload_addr (next_slot p ?s)) = slot_base p t + 20"
    using payload_addr_unat[of "next_slot p ?s"] lf(1) ns by simp
  have t0: "sizeof_T p \<noteq> 0" using lf(3) by auto
  have "unat (payload_addr (next_slot p ?s)) + unat (sizeof_T p) \<le> 8192" using lf(1) pa by simp
  from FRAM_write_ok[OF nfs t0 this, of src] obtain f1 where
    w1: "FRAM_write (dev ?s) (payload_addr (next_slot p ?s)) src (sizeof_T p) = (ESP_OK, f1)"
    and c1: "cells f1 = write_cells ?m (slot_base p t + 20) (take (unat (sizeof_T p)) src)"
    and nf1: "no_faults f1"
    using pa c by auto
  have "unat (next_slot p ?s) + unat sizeof_Header \<le> 8192"
    using lf(1) ns by (simp add: sizeof_Header_def)
  from FRAM_write_ok[OF nf1 _ this, of "Header_bytes (new_header p sq src)"] obtain f2 where
    w2: "FRAM_write f1 (next_slot p ?s) (Header_bytes (new_header p sq src)) sizeof_Header = (ESP_OK, f2)"
    and c2: "cells f2 = write_cells (cells f1) (slot_base p t) (Header_bytes (new_header p sq src))"
    and nf2: "no_faults f2"
    using ns by (auto simp: sizeof_Header_def length_Header_bytes)
  have "store_immediate p uninit f src =
       (ESP_OK, p\<lparr>m_cache := src, m_dirty := False, m_last_seq := sq\<rparr>, f2)"
    using w1 w2 sqe by (simp add: store_immediate_def Let_def)
  moreover have "case ?r of None \<Rightarrow> t = 0 \<and> sq = 1
      | Some b \<Rightarrow> t = Suc b mod ?N \<and> sq = seq (slot_header p ?m b) + 1"
    by (simp add: t_def sq_def split: option.split)
  ultimately show ?thesis
    using nf2 t c1 c2 by (intro exI[of _ f2] exI[of _ t] exI[of _ sq]) simp
qed

lemma load_config_only:
  "load (p\<lparr>m_cache := c, m_dirty := d, m_last_seq := l\<rparr>) f dst =
     (case load p f dst of (e, p', dst', f') \<Rightarrow> (e, p'\<lparr>m_cache := c, m_dirty := d, m_last_seq := l\<rparr>, dst', f'))"
proof -
  have 1: "load_slot (p\<lparr>m_cache := c, m_dirty := d, m_last_seq := l\<rparr>) = load_slot p"
    by (intro ext) (simp add: load_slot_def slot_addr_def Let_def split: prod.split)
  have 2: "load_scan (p\<lparr>m_cache := c, m_dirty := d, m_last_seq := l\<rparr>) f = load_scan p f"
    by (simp add: load_scan_def 1 slot_indices_def)
  show ?thesis
    by (simp add: load_def 2 Let_def split: prod.split)
qed

lemma word_less_succ: "(x::u32) \<noteq> 0xFFFFFFFF \<Longrightarrow> x < x + 1"
proof -
  assume "x \<noteq> 0xFFFFFFFF"
  moreover have m1: "(- 1 :: u32) = 0xFFFFFFFF" by simp
  ultimately have "x \<noteq> - 1" by (simp only: m1 not_False_eq_True)
  then have "\<not> x + 1 \<le> x" by (simp add: inc_less_eq_self_iff_eq)
  then show ?thesis by simp
qed

lemma stored_slot_is_newest:
  assumes lay: "layout_ok p" and t: "t < unat (m_slots p)"
    and len: "length src = unat (sizeof_T p)"
    and nomax: "\<forall>i<unat (m_slots p). slot_candidate p m i \<longrightarrow> seq (slot_header p m i) \<noteq> 0xFFFFFFFF"
    and m': "m' = write_cells (write_cells m (slot_base p t + 20) (take (unat (sizeof_T p)) src))
                  (slot_base p t) (Header_bytes (new_header p sq src))"
    and r: "case foldl (pick (slot_candidate p m) (\<lambda>j. seq (slot_header p m j))) None
              [0..<unat (m_slots p)] of
        None \<Rightarrow> sq = 1
      | Some b \<Rightarrow> sq = seq (slot_header p m b) + 1"
  shows "is_best (slot_valid p m') (\<lambda>j. seq (slot_header p m' j)) (unat (m_slots p)) t"
    and "slot_payload p m' t = src"
proof -
  let ?N = "unat (m_slots p)"
  let ?r = "foldl (pick (slot_candidate p m) (\<lambda>j. seq (slot_header p m j))) None [0..<?N]"
  have tk: "take (unat (sizeof_T p)) src = src" using len by simp
  have lh: "length (Header_bytes (new_header p sq src)) = 20" by (rule length_Header_bytes)
  have lp: "length (take (unat (sizeof_T p)) src) = unat (sizeof_T p)" using len by simp
  note ws = written_slot[OF lh lp, where m=m and t=t, folded m']
  have H: "slot_header p m' t = new_header p sq src"
    using ws(1) by (simp add: Header_roundtrip)
  show Pl: "slot_payload p m' t = src" using ws(2) tk by simp
  have vt: "slot_valid p m' t"
    by (simp add: slot_valid_def H Pl new_header_def tk)
  have older: "seq (slot_header p m' j) < sq" if j: "j < ?N" "j \<noteq> t" "slot_valid p m' j" for j
  proof -
    have hj: "slot_header p m' j = slot_header p m j" using ws(3)[OF j(2)] .
    with j(3) have cj: "slot_candidate p m j" by (simp add: slot_valid_def slot_candidate_def)
    with j(1) have "?r \<noteq> None" by (auto simp: pick_upto_None)
    then obtain c where c: "?r = Some c" by auto
    from pick_upto_Some[OF c] have ib: "is_best (slot_candidate p m) (\<lambda>j. seq (slot_header p m j)) ?N c" .
    then have "seq (slot_header p m j) \<le> seq (slot_header p m c)"
      and "c < ?N" and "slot_candidate p m c"
      using j(1) cj by (auto simp: is_best_def)
    moreover from this nomax have "seq (slot_header p m c) < seq (slot_header p m c) + 1"
      by (intro word_less_succ) auto
    moreover from r c have "sq = seq (slot_header p m c) + 1" by simp
    ultimately show ?thesis using hj by simp
  qed
  show "is_best (slot_valid p m') (\<lambda>j. seq (slot_header p m' j)) ?N t"
    unfolding is_best_def
  proof (intro conjI allI impI)
    show "t < ?N" by (rule t)
    show "slot_valid p m' t" by (rule vt)
  next
    fix j assume "j < ?N" "slot_valid p m' j"
    then show "seq (slot_header p m' j) \<le> seq (slot_header p m' t)"
      using older[of j] H by (cases "j = t") (auto simp: new_header_def)
  next
    fix j assume "j < t" "slot_valid p m' j"
    then show "seq (slot_header p m' j) < seq (slot_header p m' t)"
      using older[of j] H t by (auto simp: new_header_def)
  qed
qed

lemma stored_slot_valid:
  assumes len: "length src = unat (sizeof_T p)"
    and m': "m' = write_cells (write_cells m (slot_base p t + 20) (take (unat (sizeof_T p)) src))
                  (slot_base p t) (Header_bytes (new_header p sq src))"
  shows "slot_header p m' t = new_header p sq src" and "slot_payload p m' t = src"
    and "slot_valid p m' t"
proof -
  have tk: "take (unat (sizeof_T p)) src = src" using len by simp
  have lh: "length (Header_bytes (new_header p sq src)) = 20" by (rule length_Header_bytes)
  have lp: "length (take (unat (sizeof_T p)) src) = unat (sizeof_T p)" using len by simp
  note ws = written_slot[OF lh lp, where m=m and t=t, folded m']
  show H: "slot_header p m' t = new_header p sq src"
    using ws(1) by (simp add: Header_roundtrip)
  show Pl: "slot_payload p m' t = src" using ws(2) tk by simp
  show "slot_valid p m' t"
    by (simp add: slot_valid_def H Pl new_header_def tk)
qed

lemma written_header:
  "slot_header p (write_cells m (slot_base p t) (Header_bytes h)) t = h"
  using read_write_same[of m "slot_base p t" "Header_bytes h"]
  by (simp add: slot_header_def sizeof_Header_def length_Header_bytes Header_roundtrip)

section \<open>The read path under any transport faults\<close>

lemma FRAM_read_data:
  "FRAM_read f a n = (ESP_OK, d, f') \<Longrightarrow>
     d = read_cells (cells f) (unat a) (unat n) \<and> cells f' = cells f"
  by (auto simp: FRAM_read_def Let_def ESP_OK_def ESP_ERR_INVALID_ARG_def
      split: if_splits prod.splits dest!: spi_frame)

lemma load_slot_accepted:
  assumes lay: "layout_ok p" and i: "i < unat (m_slots p)" and ac: "accepted p m s"
  shows "accepted p m (load_slot p (word_of_nat i) s)"
proof -
  note lf = layout_facts[OF lay i]
  let ?a = "slot_addr p (word_of_nat i)"
  have a: "unat ?a = slot_base p i" by (rule slot_addr_unat[OF lay i])
  have pa: "unat (payload_addr ?a) = slot_base p i + 20"
    using payload_addr_unat[of ?a] lf(1) a by simp
  from ac have c: "cells (dev s) = m" by (simp add: accepted_def)
  obtain err hb f1 where r1: "FRAM_read (dev s) ?a sizeof_Header = (err, hb, f1)"
    by (cases "FRAM_read (dev s) ?a sizeof_Header") auto
  from FRAM_read_frame[OF r1] c have c1: "cells f1 = m" by simp
  show ?thesis
  proof (cases "err = ESP_OK")
    case False
    with r1 ac c1 show ?thesis by (simp add: load_slot_def Let_def accepted_def)
  next
    case True
    with FRAM_read_data[of "dev s" ?a sizeof_Header hb f1] r1 a c
    have hb: "Header_of_bytes hb = slot_header p m i"
      by (simp add: slot_header_def)
    obtain err2 buf f2 where r2: "FRAM_read f1 (payload_addr ?a) (sizeof_T p) = (err2, buf, f2)"
      by (cases "FRAM_read f1 (payload_addr ?a) (sizeof_T p)") auto
    from FRAM_read_frame[OF r2] c1 have c2: "cells f2 = m" by simp
    have buf: "err2 = ESP_OK \<Longrightarrow> buf = slot_payload p m i"
      using FRAM_read_data[of f1 "payload_addr ?a" "sizeof_T p" buf f2] r2 pa c1
      by (simp add: slot_payload_def sizeof_Header_def)
    from True r1 r2 hb ac c1 c2 buf i show ?thesis
      by (auto simp: load_slot_def Let_def accepted_def slot_valid_def)
  qed
qed

lemma fold_load_accepted:
  assumes "layout_ok p" and "\<forall>i\<in>set is. i < unat (m_slots p)" and "accepted p m s"
  shows "accepted p m (fold (load_slot p) (map word_of_nat is) s)"
  using assms(2,3)
proof (induction "is" arbitrary: s)
  case Nil
  then show ?case by simp
next
  case (Cons i "is")
  from Cons.prems have "i < unat (m_slots p)" by simp
  from load_slot_accepted[OF assms(1) this Cons.prems(2)] Cons.IH Cons.prems(1)
  show ?case by simp
qed

lemma load_scan_accepted:
  assumes "layout_ok p"
  shows "accepted p (cells f) (load_scan p f)"
  unfolding load_scan_def slot_indices_def
  by (rule fold_load_accepted[OF assms]) (simp_all add: accepted_def)

lemma load_sound:
  assumes lay: "layout_ok p" and l: "load p f dst = (e, p', dst', f')"
  shows "e = ESP_OK \<Longrightarrow> \<exists>b<unat (m_slots p). slot_valid p (cells f) b \<and> dst' = slot_payload p (cells f) b"
    and "\<forall>i<unat (m_slots p). \<not> slot_valid p (cells f) i \<Longrightarrow> e = ESP_ERR_NOT_FOUND \<and> dst' = dst"
proof -
  let ?s = "load_scan p f"
  have ac: "accepted p (cells f) ?s" by (rule load_scan_accepted[OF lay])
  {
    assume e: "e = ESP_OK"
    with l have fs: "found ?s"
      by (auto simp: load_def Let_def ESP_OK_def ESP_ERR_NOT_FOUND_def split: if_splits)
    with ac obtain b where b: "b < unat (m_slots p)" "slot_valid p (cells f) b"
      "best_addr ?s = slot_addr p (word_of_nat b)" and c: "cells (dev ?s) = cells f"
      by (auto simp: accepted_def)
    note lf = layout_facts[OF lay b(1)]
    let ?a = "slot_addr p (word_of_nat b)"
    have a: "unat ?a = slot_base p b" by (rule slot_addr_unat[OF lay b(1)])
    have pa: "unat (payload_addr ?a) = slot_base p b + 20"
      using payload_addr_unat[of ?a] lf(1) a by simp
    from l fs e b(3) obtain f1 where
      "FRAM_read (dev ?s) (payload_addr ?a) (sizeof_T p) = (ESP_OK, dst', f1)"
      by (auto simp: load_def Let_def split: prod.splits if_splits)
    from FRAM_read_data[OF this] pa c have "dst' = slot_payload p (cells f) b"
      by (simp add: slot_payload_def sizeof_Header_def)
    with b show "\<exists>b<unat (m_slots p). slot_valid p (cells f) b \<and> dst' = slot_payload p (cells f) b"
      by blast
  }
  {
    assume "\<forall>i<unat (m_slots p). \<not> slot_valid p (cells f) i"
    with ac have "\<not> found ?s" by (auto simp: accepted_def)
    with l show "e = ESP_ERR_NOT_FOUND \<and> dst' = dst" by (simp add: load_def Let_def)
  }
qed

section \<open>Evaluating the example\<close>

lemma read_write_eval:
  "read_cells (write_cells m a bs) c n =
     (if c + n \<le> a \<or> a + length bs \<le> c then read_cells m c n
      else if c = a \<and> n = length bs then bs
      else map (write_cells m a bs) [c..<c + n])"
proof -
  have "read_cells (write_cells m a bs) c n = map (write_cells m a bs) [c..<c + n]"
    by (simp add: read_cells_def)
  moreover have "c + n \<le> a \<or> a + length bs \<le> c \<Longrightarrow>
      read_cells (write_cells m a bs) c n = read_cells m c n"
    by (rule read_write_other)
  moreover have "read_cells (write_cells m a bs) a (length bs) = bs"
    by (rule read_write_same)
  ultimately show ?thesis by presburger
qed

lemma read_zero: "read_cells (\<lambda>a. 0) c n = replicate n 0"
  by (simp add: read_cells_def map_replicate_const)

lemma Header_of_zero: "Header_of_bytes (replicate 20 0) = Header_zero"
  by (simp add: Header_of_bytes_def Header_zero_def u32_of_bytes_def u16_of_bytes_def)


lemmas ex_eval = Persistent_new_def slot_addr_def sizeof_Header_def FRAM_read_def FRAM_write_def wren_def
  FRAM_SIZE_BYTES_def spi_device_transmit_def ESP_OK_def ESP_ERR_NOT_FOUND_def ESP_ERR_INVALID_ARG_def
  Let_def slot_indices_def upt_conv_Cons
  load_def load_scan_def load_slot_def store_immediate_def store_scan_def store_slot_def
  next_seq_def next_slot_def next_addr_def payload_addr_def new_header_def
  read_write_eval read_zero Header_of_zero Header_roundtrip length_Header_bytes
  Header_zero_def STORE_MAGIC_def

lemma ex_layout: "layout_ok ex_store"
  by (simp add: layout_ok_def ex_store_def ex_eval)

lemma ex_slots: "unat (m_slots ex_store) = 2"
  by (simp add: ex_store_def Persistent_new_def)

lemma ex_size: "unat (sizeof_T ex_store) = 4"
  by (simp add: ex_store_def Persistent_new_def)

lemma ex_no_faults: "no_faults (ex_device sq [])"
  by (simp add: no_faults_def ex_device_def)

lemma ex_header0: "slot_header ex_store (cells (ex_device sq rs)) 0 = ex_record sq"
  by (simp add: slot_header_def slot_base_def ex_store_def ex_device_def ex_eval)

lemma ex_header1: "slot_header ex_store (cells (ex_device sq rs)) 1 = Header_zero"
  by (simp add: slot_header_def slot_base_def ex_store_def ex_device_def ex_eval)

lemma ex_payload0: "slot_payload ex_store (cells (ex_device sq rs)) 0 = [1, 2, 3, 4]"
  by (simp add: slot_payload_def slot_base_def ex_store_def ex_device_def ex_eval)

lemma ex_valid0: "slot_valid ex_store (cells (ex_device sq rs)) 0"
  by (simp add: slot_valid_def ex_header0 ex_payload0) (simp add: ex_record_def ex_store_def ex_eval)

lemma ex_valid1: "\<not> slot_valid ex_store (cells (ex_device sq rs)) 1"
  using ex_header1[of sq rs] by (simp add: slot_valid_def Header_zero_def STORE_MAGIC_def)

lemma ex_valid_iff: "i < 2 \<Longrightarrow> slot_valid ex_store (cells (ex_device sq rs)) i \<longleftrightarrow> i = 0"
  using ex_valid0[of sq rs] ex_valid1[of sq rs] by (auto simp: less_2_cases_iff)

lemma ex_candidate_iff: "i < 2 \<Longrightarrow> slot_candidate ex_store (cells (ex_device sq rs)) i \<longleftrightarrow> i = 0"
  using ex_header0[of sq rs] ex_header1[of sq rs]
  by (auto simp: less_2_cases_iff slot_candidate_def ex_record_def ex_store_def ex_eval)

section \<open>The claims\<close>

subsection \<open>C1: a stored value is what the next load returns\<close>

text \<open>
  Claim C1, as amended. The configuration is as required (\<open>layout_ok\<close>), no SPI
  transaction fails, \<open>src\<close> is a value of \<^verbatim>\<open>T\<close> (\<^verbatim>\<open>sizeof(T)\<close> bytes), and no candidate
  header on the device carries the sequence number \<^verbatim>\<open>0xFFFFFFFF\<close>. Then
  \<^verbatim>\<open>store_immediate(src)\<close> returns \<^verbatim>\<open>ESP_OK\<close>, and a \<^verbatim>\<open>load\<close> that follows it directly
  returns \<^verbatim>\<open>ESP_OK\<close> and leaves exactly the bytes of \<open>src\<close> in \<^verbatim>\<open>dst\<close>.
\<close>

theorem store_then_load:
  assumes lay: "layout_ok p" and nf: "no_faults f" and len: "length src = unat (sizeof_T p)"
    and nomax: "\<forall>i<unat (m_slots p). slot_candidate p (cells f) i \<longrightarrow>
                  seq (slot_header p (cells f) i) \<noteq> 0xFFFFFFFF"
  shows "case store_immediate p uninit f src of (e, p', f') \<Rightarrow>
           e = ESP_OK \<and>
           (case load p' f' dst of (e2, p2, dst', f2) \<Rightarrow> e2 = ESP_OK \<and> dst' = src)"
proof -
  let ?N = "unat (m_slots p)" and ?m = "cells f"
  from store_no_faults[OF lay nf, of uninit src] obtain f' t sq where
    st: "store_immediate p uninit f src =
       (ESP_OK, p\<lparr>m_cache := src, m_dirty := False, m_last_seq := sq\<rparr>, f')"
    and nf': "no_faults f'" and t: "t < ?N"
    and c: "cells f' = write_cells (write_cells ?m (slot_base p t + 20) (take (unat (sizeof_T p)) src))
                  (slot_base p t) (Header_bytes (new_header p sq src))"
    and r: "case foldl (pick (slot_candidate p ?m) (\<lambda>j. seq (slot_header p ?m j))) None [0..<?N] of
        None \<Rightarrow> t = 0 \<and> sq = 1
      | Some b \<Rightarrow> t = Suc b mod ?N \<and> sq = seq (slot_header p ?m b) + 1"
    by blast
  from r have r': "case foldl (pick (slot_candidate p ?m) (\<lambda>j. seq (slot_header p ?m j))) None [0..<?N] of
        None \<Rightarrow> sq = 1 | Some b \<Rightarrow> sq = seq (slot_header p ?m b) + 1"
    by (simp split: option.splits)
  note nb = stored_slot_is_newest[OF lay t len nomax c r']
  from load_spec[OF lay nf', of dst] nb(1)
  obtain e2 p2 dst' f2 b where
    l: "load p f' dst = (e2, p2, dst', f2)" and e2: "e2 = ESP_OK"
    and b: "is_best (slot_valid p (cells f')) (\<lambda>j. seq (slot_header p (cells f') j)) ?N b"
    and d: "dst' = slot_payload p (cells f') b"
    using t by (cases "load p f' dst") (auto simp: is_best_def split: if_splits)
  from is_best_unique[OF b nb(1)] d nb(2) have "dst' = src" by simp
  with st l e2 show ?thesis by (simp add: load_config_only)
qed

text \<open>
  The theorem at the example: slot 0 holds sequence number 7, the value 5, 6, 7, 8 is
  stored and loaded.
\<close>

theorem store_then_load_witness:
  "layout_ok ex_store \<and> no_faults (ex_device 7 []) \<and>
   length [5, 6, 7, 8 :: u8] = unat (sizeof_T ex_store) \<and>
   (case store_immediate ex_store ex_uninit (ex_device 7 []) [5, 6, 7, 8] of
      (e, p', f') \<Rightarrow>
        e = ESP_OK \<and>
        (case load p' f' [0, 0, 0, 0] of (e2, p2, dst', f2) \<Rightarrow>
           e2 = ESP_OK \<and> dst' = [5, 6, 7, 8]))"
proof -
  have len: "length [5, 6, 7, 8 :: u8] = unat (sizeof_T ex_store)"
    by (simp add: ex_size)
  have nomax: "\<forall>i<unat (m_slots ex_store). slot_candidate ex_store (cells (ex_device 7 [])) i \<longrightarrow>
      seq (slot_header ex_store (cells (ex_device 7 [])) i) \<noteq> 0xFFFFFFFF"
    using ex_header0[of 7 "[]"]
    by (auto simp: ex_slots ex_candidate_iff ex_record_def)
  show ?thesis
    using store_then_load[OF ex_layout ex_no_faults len nomax, where uninit=ex_uninit and dst="[0, 0, 0, 0]"]
      ex_layout ex_no_faults[of 7] len
    by simp
qed

text \<open>
  Claim C1 as stated fails. Slot 0 of the example device holds a valid record with the
  sequence number \<^verbatim>\<open>0xFFFFFFFF\<close>. \<^verbatim>\<open>store_immediate\<close> of 5, 6, 7, 8 succeeds; the new
  sequence number wraps to 0, and the \<^verbatim>\<open>load\<close> that follows returns \<^verbatim>\<open>ESP_OK\<close> with the
  old payload 1, 2, 3, 4.
\<close>

theorem store_then_load_counterexample:
  "case store_immediate ex_store ex_uninit (ex_device 0xFFFFFFFF []) [5, 6, 7, 8] of
     (e, p', f') \<Rightarrow>
       e = ESP_OK \<and> m_last_seq p' = 0 \<and>
       (case load p' f' [0, 0, 0, 0] of (e2, p2, dst', f2) \<Rightarrow>
          e2 = ESP_OK \<and> dst' = [1, 2, 3, 4] \<and> dst' \<noteq> [5, 6, 7, 8])"
  by (simp add: ex_store_def ex_device_def ex_record_def ex_uninit_def ex_eval)

subsection \<open>C2: what load accepts and returns\<close>

text \<open>
  Claim C2. For every content of the memory array, with the configuration as required:
  when \<^verbatim>\<open>load\<close> returns \<^verbatim>\<open>ESP_OK\<close>, \<^verbatim>\<open>dst\<close> holds the payload of a slot that is
  valid (magic is the sentinel, version is the configured one, len is \<^verbatim>\<open>sizeof(T)\<close>, the
  stored CRC is the CRC of the payload bytes); when no slot is valid, \<^verbatim>\<open>load\<close> returns
  \<^verbatim>\<open>ESP_ERR_NOT_FOUND\<close> and leaves \<^verbatim>\<open>dst\<close> alone; and when no SPI transaction fails,
  all slots are judged: \<^verbatim>\<open>load\<close> returns the payload of the valid slot with the highest
  sequence number if there is a valid slot, \<^verbatim>\<open>ESP_ERR_NOT_FOUND\<close> otherwise.
\<close>

theorem load_returns_newest_valid:
  assumes "layout_ok p"
  shows "case load p f dst of (e, p', dst', f') \<Rightarrow>
     (e = ESP_OK \<longrightarrow>
        (\<exists>b<unat (m_slots p). slot_valid p (cells f) b \<and> dst' = slot_payload p (cells f) b)) \<and>
     ((\<forall>i<unat (m_slots p). \<not> slot_valid p (cells f) i) \<longrightarrow>
        e = ESP_ERR_NOT_FOUND \<and> dst' = dst) \<and>
     (no_faults f \<longrightarrow>
        (if \<exists>i<unat (m_slots p). slot_valid p (cells f) i
         then e = ESP_OK \<and>
              (\<exists>b. is_best (slot_valid p (cells f)) (\<lambda>j. seq (slot_header p (cells f) j))
                      (unat (m_slots p)) b \<and>
                    dst' = slot_payload p (cells f) b)
         else e = ESP_ERR_NOT_FOUND \<and> dst' = dst))"
proof -
  obtain e p' dst' f' where l: "load p f dst = (e, p', dst', f')"
    by (cases "load p f dst") auto
  note s = load_sound[OF assms l]
  have "no_faults f \<Longrightarrow>
        (if \<exists>i<unat (m_slots p). slot_valid p (cells f) i
         then e = ESP_OK \<and>
              (\<exists>b. is_best (slot_valid p (cells f)) (\<lambda>j. seq (slot_header p (cells f) j))
                      (unat (m_slots p)) b \<and>
                    dst' = slot_payload p (cells f) b)
         else e = ESP_ERR_NOT_FOUND \<and> dst' = dst)"
    using load_spec[OF assms, of f dst] l by simp
  with s l show ?thesis by simp
qed

text \<open>
  The theorem at the example: the record of slot 0 is returned. For the store configured
  with version 2 no slot of the same device is valid, and \<^verbatim>\<open>load\<close> returns
  \<^verbatim>\<open>ESP_ERR_NOT_FOUND\<close>, here with a failing first read.
\<close>

theorem load_returns_newest_valid_witness:
  "layout_ok ex_store \<and> no_faults (ex_device 7 []) \<and>
   slot_valid ex_store (cells (ex_device 7 [])) 0 \<and>
   (case load ex_store (ex_device 7 []) [0, 0, 0, 0] of (e, p', dst', f') \<Rightarrow>
      e = ESP_OK \<and> dst' = [1, 2, 3, 4]) \<and>
   layout_ok ex_store_v2 \<and>
   (case load ex_store_v2 (ex_device 7 [- 1]) [0, 0, 0, 0] of (e, p', dst', f') \<Rightarrow>
      e = ESP_ERR_NOT_FOUND \<and> dst' = [0, 0, 0, 0])"
proof -
  let ?m = "cells (ex_device 7 [])"
  obtain e p' dst' f' where l: "load ex_store (ex_device 7 []) [0, 0, 0, 0] = (e, p', dst', f')"
    by (cases "load ex_store (ex_device 7 []) [0, 0, 0, 0]") auto
  have ex: "\<exists>i<unat (m_slots ex_store). slot_valid ex_store ?m i"
    using ex_valid0[of 7 "[]"] by (intro exI[of _ 0]) (simp add: ex_slots)
  from load_returns_newest_valid[OF ex_layout, of "ex_device 7 []" "[0, 0, 0, 0]"] l ex
    ex_no_faults[of 7]
  obtain b where e: "e = ESP_OK"
    and b: "is_best (slot_valid ex_store ?m) (\<lambda>j. seq (slot_header ex_store ?m j)) 2 b"
    and d: "dst' = slot_payload ex_store ?m b"
    by (auto simp: ex_slots)
  from b have "b = 0" by (auto simp: is_best_def ex_valid_iff)
  with d have "dst' = [1, 2, 3, 4]" by (simp add: ex_payload0)
  with e l have 1: "case load ex_store (ex_device 7 []) [0, 0, 0, 0] of (e, p', dst', f') \<Rightarrow>
      e = ESP_OK \<and> dst' = [1, 2, 3, 4]"
    by simp
  have lay2: "layout_ok ex_store_v2"
    by (simp add: layout_ok_def ex_store_v2_def ex_eval)
  have h2: "slot_header ex_store_v2 (cells (ex_device 7 [- 1])) i = slot_header ex_store ?m i" for i
    by (simp add: slot_header_def slot_base_def ex_store_v2_def ex_store_def ex_device_def
        Persistent_new_def)
  have v2: "m_version ex_store_v2 = 2" and n2: "unat (m_slots ex_store_v2) = 2"
    by (simp_all add: ex_store_v2_def Persistent_new_def)
  have none: "\<forall>i<unat (m_slots ex_store_v2). \<not> slot_valid ex_store_v2 (cells (ex_device 7 [- 1])) i"
    using ex_header0[of 7 "[]"] ex_header1[of 7 "[]"]
    by (auto simp: slot_valid_def h2 v2 n2 less_2_cases_iff ex_record_def Header_zero_def)
  obtain e2 p2 d2 f2 where l2: "load ex_store_v2 (ex_device 7 [- 1]) [0, 0, 0, 0] = (e2, p2, d2, f2)"
    by (cases "load ex_store_v2 (ex_device 7 [- 1]) [0, 0, 0, 0]") auto
  from load_returns_newest_valid[OF lay2, of "ex_device 7 [- 1]" "[0, 0, 0, 0]"] l2 none
  have 2: "case load ex_store_v2 (ex_device 7 [- 1]) [0, 0, 0, 0] of (e, p', dst', f') \<Rightarrow>
      e = ESP_ERR_NOT_FOUND \<and> dst' = [0, 0, 0, 0]"
    by simp
  show ?thesis
    using 1 2 lay2 ex_layout ex_no_faults[of 7] ex_valid0[of 7 "[]"] by simp
qed

subsection \<open>C3: the two writes of store_immediate\<close>

text \<open>
  Claim C3. \<^verbatim>\<open>store_immediate\<close> scans with reads only, then writes the payload, then
  the header. When the payload write fails, its error is returned and the header write is
  not called; when the header write fails, its error is returned; in both cases the object
  is returned as it was (cache, dirty flag and remembered sequence number unchanged).
  Only when both writes succeed is the cache set to the written value, the dirty flag
  cleared and the sequence number remembered.
\<close>

theorem store_immediate_commit:
  "let s = store_scan p uninit f;
       pa = payload_addr (next_slot p s);
       h = new_header p (next_seq s) src;
       w1 = FRAM_write (dev s) pa src (sizeof_T p);
       w2 = FRAM_write (snd w1) (next_slot p s) (Header_bytes h) sizeof_Header
   in store_immediate p uninit f src =
        (if fst w1 \<noteq> ESP_OK then (fst w1, p, snd w1)
         else if fst w2 \<noteq> ESP_OK then (fst w2, p, snd w2)
         else (ESP_OK, p\<lparr>m_cache := src, m_dirty := False, m_last_seq := next_seq s\<rparr>, snd w2)) \<and>
      cells (dev s) = cells f \<and>
      (\<exists>rs. calls (dev s) = calls f @ rs \<and> list_all is_read rs) \<and>
      calls (snd w1) = calls (dev s) @ [Write_call pa (take (unat (sizeof_T p)) src)] \<and>
      calls (snd w2) = calls (dev s) @ [Write_call pa (take (unat (sizeof_T p)) src),
                                         Write_call (next_slot p s) (Header_bytes h)]"
  using store_scan_only_reads[of f p uninit]
  by (simp add: store_immediate_def Let_def FRAM_write_calls only_reads_def length_Header_bytes
      sizeof_Header_def split: prod.split)

subsection \<open>C4: the slot and the sequence number of a new generation\<close>

text \<open>
  Claim C4. With the configuration as required and no SPI transaction failing,
  \<^verbatim>\<open>store_immediate\<close> takes as candidates the slots whose header has the sentinel magic
  and the configured version (neither len nor CRC is looked at). With \<open>b\<close> the
  candidate of the highest sequence number, the new generation has that number plus one
  and goes into slot \<open>(b + 1) mod slot_count\<close>; without a candidate it has the number 1
  and goes into slot 0. The new generation is what the device holds afterwards in that
  slot: the header read back from the slot has the sentinel magic, the configured version,
  reserved 0, the new sequence number (the one the object remembers), the length
  \<^verbatim>\<open>sizeof(T)\<close> and the CRC of the value; for a value of \<^verbatim>\<open>sizeof(T)\<close> bytes, the payload
  read back from the slot is the value, and every other slot is as it was.
\<close>

theorem store_immediate_rotation:
  assumes "layout_ok p" and "no_faults f"
  shows "\<exists>f' t sq.
     store_immediate p uninit f src =
       (ESP_OK, p\<lparr>m_cache := src, m_dirty := False, m_last_seq := sq\<rparr>, f') \<and>
     t < unat (m_slots p) \<and>
     cells f' = write_cells (write_cells (cells f) (slot_base p t + 20) (take (unat (sizeof_T p)) src))
                  (slot_base p t) (Header_bytes (new_header p sq src)) \<and>
     slot_header p (cells f') t =
       \<lparr>magic = STORE_MAGIC, version = m_version p, reserved = 0, seq = sq,
          len = sizeof_T p, crc = crc32 (take (unat (sizeof_T p)) src)\<rparr> \<and>
     (length src = unat (sizeof_T p) \<longrightarrow>
        slot_payload p (cells f') t = src \<and>
        (\<forall>j<unat (m_slots p). j \<noteq> t \<longrightarrow>
           slot_header p (cells f') j = slot_header p (cells f) j \<and>
           slot_payload p (cells f') j = slot_payload p (cells f) j)) \<and>
     (if \<exists>i<unat (m_slots p). slot_candidate p (cells f) i
      then \<exists>b. is_best (slot_candidate p (cells f)) (\<lambda>j. seq (slot_header p (cells f) j))
                  (unat (m_slots p)) b \<and>
                sq = seq (slot_header p (cells f) b) + 1 \<and> t = (b + 1) mod unat (m_slots p)
      else sq = 1 \<and> t = 0)"
proof -
  let ?r = "foldl (pick (slot_candidate p (cells f)) (\<lambda>j. seq (slot_header p (cells f) j))) None
              [0..<unat (m_slots p)]"
  from store_no_faults[OF assms, of uninit src] obtain f' t sq where
    st: "store_immediate p uninit f src =
       (ESP_OK, p\<lparr>m_cache := src, m_dirty := False, m_last_seq := sq\<rparr>, f')"
    and t: "t < unat (m_slots p)"
    and c: "cells f' = write_cells (write_cells (cells f) (slot_base p t + 20) (take (unat (sizeof_T p)) src))
                  (slot_base p t) (Header_bytes (new_header p sq src))"
    and r: "case ?r of None \<Rightarrow> t = 0 \<and> sq = 1
      | Some b \<Rightarrow> t = Suc b mod unat (m_slots p) \<and> sq = seq (slot_header p (cells f) b) + 1"
    by blast
  have hd: "slot_header p (cells f') t =
       \<lparr>magic = STORE_MAGIC, version = m_version p, reserved = 0, seq = sq,
          len = sizeof_T p, crc = crc32 (take (unat (sizeof_T p)) src)\<rparr>"
    unfolding c by (simp add: written_header new_header_def)
  have pl: "slot_payload p (cells f') t = src \<and>
        (\<forall>j<unat (m_slots p). j \<noteq> t \<longrightarrow>
           slot_header p (cells f') j = slot_header p (cells f) j \<and>
           slot_payload p (cells f') j = slot_payload p (cells f) j)"
    if len: "length src = unat (sizeof_T p)"
  proof -
    have lh: "length (Header_bytes (new_header p sq src)) = 20" by (rule length_Header_bytes)
    have lp: "length (take (unat (sizeof_T p)) src) = unat (sizeof_T p)" using len by simp
    note ws = written_slot[OF lh lp, where m="cells f" and t=t, folded c]
    from stored_slot_valid(2)[OF len c] ws(3,4) show ?thesis by simp
  qed
  have sel: "if \<exists>i<unat (m_slots p). slot_candidate p (cells f) i
      then \<exists>b. is_best (slot_candidate p (cells f)) (\<lambda>j. seq (slot_header p (cells f) j))
                  (unat (m_slots p)) b \<and>
                sq = seq (slot_header p (cells f) b) + 1 \<and> t = (b + 1) mod unat (m_slots p)
      else sq = 1 \<and> t = 0"
  proof (cases ?r)
    case None
    then have "\<not> (\<exists>i<unat (m_slots p). slot_candidate p (cells f) i)"
      by (simp add: pick_upto_None)
    with None r show ?thesis by auto
  next
    case (Some b)
    from pick_upto_Some[OF Some] have ib: "is_best (slot_candidate p (cells f))
        (\<lambda>j. seq (slot_header p (cells f) j)) (unat (m_slots p)) b" .
    then have "\<exists>i<unat (m_slots p). slot_candidate p (cells f) i"
      by (auto simp: is_best_def)
    with Some r ib show ?thesis by auto
  qed
  show ?thesis
    using st t c hd pl sel
    by (intro exI[of _ f'] exI[of _ t] exI[of _ sq] conjI impI) simp_all
qed

text \<open>
  The theorem at the example: slot 0 holds sequence number 7, so the new generation is
  number 8 and goes into slot 1. Afterwards the header of slot 1 carries the number 8
  and its payload is the value 5, 6, 7, 8, while slot 0 still holds its record.
\<close>

theorem store_immediate_rotation_witness:
  "layout_ok ex_store \<and> no_faults (ex_device 7 []) \<and>
   length [5, 6, 7, 8 :: u8] = unat (sizeof_T ex_store) \<and>
   (\<exists>f'. store_immediate ex_store ex_uninit (ex_device 7 []) [5, 6, 7, 8] =
            (ESP_OK, ex_store\<lparr>m_cache := [5, 6, 7, 8], m_dirty := False, m_last_seq := 8\<rparr>, f') \<and>
          cells f' =
            write_cells (write_cells (cells (ex_device 7 [])) (slot_base ex_store 1 + 20) [5, 6, 7, 8])
              (slot_base ex_store 1) (Header_bytes (new_header ex_store 8 [5, 6, 7, 8])) \<and>
          slot_header ex_store (cells f') 1 =
            \<lparr>magic = STORE_MAGIC, version = 1, reserved = 0, seq = 8, len = 4,
               crc = crc32 [5, 6, 7, 8]\<rparr> \<and>
          slot_payload ex_store (cells f') 1 = [5, 6, 7, 8] \<and>
          slot_header ex_store (cells f') 0 = ex_record 7 \<and>
          slot_payload ex_store (cells f') 0 = [1, 2, 3, 4])"
proof -
  let ?m = "cells (ex_device 7 [])"
  have len: "length [5, 6, 7, 8 :: u8] = unat (sizeof_T ex_store)" by (simp add: ex_size)
  from store_immediate_rotation[OF ex_layout ex_no_faults[of 7], where uninit=ex_uninit and src="[5, 6, 7, 8]"]
  obtain f' t sq where
    st: "store_immediate ex_store ex_uninit (ex_device 7 []) [5, 6, 7, 8] =
       (ESP_OK, ex_store\<lparr>m_cache := [5, 6, 7, 8], m_dirty := False, m_last_seq := sq\<rparr>, f')"
    and c: "cells f' = write_cells (write_cells ?m (slot_base ex_store t + 20)
                (take (unat (sizeof_T ex_store)) [5, 6, 7, 8]))
              (slot_base ex_store t) (Header_bytes (new_header ex_store sq [5, 6, 7, 8]))"
    and hd: "slot_header ex_store (cells f') t =
       \<lparr>magic = STORE_MAGIC, version = m_version ex_store, reserved = 0, seq = sq,
          len = sizeof_T ex_store, crc = crc32 (take (unat (sizeof_T ex_store)) [5, 6, 7, 8])\<rparr>"
    and pl: "length [5, 6, 7, 8 :: u8] = unat (sizeof_T ex_store) \<longrightarrow>
        slot_payload ex_store (cells f') t = [5, 6, 7, 8] \<and>
        (\<forall>j<unat (m_slots ex_store). j \<noteq> t \<longrightarrow>
           slot_header ex_store (cells f') j = slot_header ex_store ?m j \<and>
           slot_payload ex_store (cells f') j = slot_payload ex_store ?m j)"
    and r: "if \<exists>i<unat (m_slots ex_store). slot_candidate ex_store ?m i
      then \<exists>b. is_best (slot_candidate ex_store ?m) (\<lambda>j. seq (slot_header ex_store ?m j))
                  (unat (m_slots ex_store)) b \<and>
                sq = seq (slot_header ex_store ?m b) + 1 \<and> t = (b + 1) mod unat (m_slots ex_store)
      else sq = 1 \<and> t = 0"
    by (elim exE conjE) (rule that)
  have "\<exists>i<unat (m_slots ex_store). slot_candidate ex_store ?m i"
    by (intro exI[of _ 0]) (simp add: ex_slots ex_candidate_iff)
  with r obtain b where
    b: "is_best (slot_candidate ex_store ?m) (\<lambda>j. seq (slot_header ex_store ?m j)) 2 b"
    and sq: "sq = seq (slot_header ex_store ?m b) + 1" and t: "t = (b + 1) mod 2"
    by (auto simp: ex_slots)
  from b have "b = 0" by (auto simp: is_best_def ex_candidate_iff)
  with sq t have sq8: "sq = 8" and t1: "t = 1" by (simp_all add: ex_header0 ex_record_def)
  from pl len t1 have p1: "slot_payload ex_store (cells f') 1 = [5, 6, 7, 8]"
    and o0: "slot_header ex_store (cells f') 0 = slot_header ex_store ?m 0"
            "slot_payload ex_store (cells f') 0 = slot_payload ex_store ?m 0"
    by (simp_all add: ex_slots)
  have h1: "slot_header ex_store (cells f') 1 =
            \<lparr>magic = STORE_MAGIC, version = 1, reserved = 0, seq = 8, len = 4,
               crc = crc32 [5, 6, 7, 8]\<rparr>"
    using hd sq8 t1 by (simp add: ex_store_def Persistent_new_def)
  from st c sq8 t1 p1 o0 h1 show ?thesis
    using ex_layout ex_no_faults[of 7] len
    by (intro conjI exI[of _ f']) (simp_all add: ex_size ex_header0 ex_payload0)
qed

subsection \<open>C5: the deferred write\<close>

text \<open>
  Claim C5. \<^verbatim>\<open>store_deferred\<close> sets the cache to the value and the dirty flag, and
  returns the driver as it was: no call was made on it, and there is no error to return.
  \<^verbatim>\<open>flush\<close> of a store that is not dirty returns \<^verbatim>\<open>ESP_OK\<close> with the object and the
  driver as they were. \<^verbatim>\<open>flush\<close> of a dirty store is one \<^verbatim>\<open>store_immediate\<close> of the
  cached value: on \<^verbatim>\<open>ESP_OK\<close> the dirty flag is cleared, on an error it stays set, and
  the cache holds the same value in both cases.
\<close>

theorem deferred_and_flush:
  "store_deferred p f v = (p\<lparr>m_cache := v, m_dirty := True\<rparr>, f) \<and>
   flush p uninit f =
     (if m_dirty p then store_immediate p uninit f (m_cache p) else (ESP_OK, p, f)) \<and>
   (case flush p uninit f of (e, p', f') \<Rightarrow>
      if \<not> m_dirty p then e = ESP_OK \<and> p' = p \<and> f' = f
      else if e = ESP_OK then \<not> m_dirty p' \<and> m_cache p' = m_cache p
      else m_dirty p' \<and> m_cache p' = m_cache p)"
  by (auto simp: store_deferred_def flush_def store_immediate_def Let_def split: prod.split)

subsection \<open>C6: read failures during load\<close>

text \<open>
  Claim C6 as stated fails. In the example, the three reads of the scan succeed and the
  read of the payload after the scan fails with the code -1: \<^verbatim>\<open>load\<close> returns -1, which is
  neither \<^verbatim>\<open>ESP_OK\<close> nor \<^verbatim>\<open>ESP_ERR_NOT_FOUND\<close>.
\<close>

theorem load_propagates_read_error:
  "fst (load ex_store (ex_device 7 [0, 0, 0, - 1]) [0, 0, 0, 0]) = - 1 \<and>
   fst (load ex_store (ex_device 7 [0, 0, 0, - 1]) [0, 0, 0, 0]) \<noteq> ESP_OK \<and>
   fst (load ex_store (ex_device 7 [0, 0, 0, - 1]) [0, 0, 0, 0]) \<noteq> ESP_ERR_NOT_FOUND"
  by (simp add: ex_store_def ex_device_def ex_record_def ex_eval)

text \<open>
  Claim C6, as amended. Read failures inside the scan are absorbed: the header of every
  slot is read, whatever failed before, and a slot changes the scan's variables only when
  both its header read and its payload read returned \<^verbatim>\<open>ESP_OK\<close>. After the scan,
  \<^verbatim>\<open>load\<close> returns \<^verbatim>\<open>ESP_ERR_NOT_FOUND\<close> when no slot was found; otherwise it returns
  the result of one more read of the best slot's payload, \<^verbatim>\<open>ESP_OK\<close> with the payload in
  \<^verbatim>\<open>dst\<close> or the error code of that read with \<^verbatim>\<open>dst\<close> unchanged.
\<close>

theorem load_absorbs_scan_failures:
  "(\<forall>i\<in>set (slot_indices p).
      Read_call (slot_addr p i) sizeof_Header \<in> set (calls (dev (load_scan p f)))) \<and>
   ((best (load_slot p i s) = best s \<and> best_addr (load_slot p i s) = best_addr s \<and>
     found (load_slot p i s) = found s) \<or>
    (\<exists>hb f1 buf f2.
       FRAM_read (dev s) (slot_addr p i) sizeof_Header = (ESP_OK, hb, f1) \<and>
       FRAM_read f1 (payload_addr (slot_addr p i)) (sizeof_T p) = (ESP_OK, buf, f2))) \<and>
   load p f dst =
     (let sc = load_scan p f;
          r = FRAM_read (dev sc) (payload_addr (best_addr sc)) (sizeof_T p)
      in if found sc
         then (fst r, p, if fst r = ESP_OK then fst (snd r) else dst, snd (snd r))
         else (ESP_ERR_NOT_FOUND, p, dst, dev sc))"
proof -
  have "\<forall>i\<in>set (slot_indices p).
      Read_call (slot_addr p i) sizeof_Header \<in> set (calls (dev (load_scan p f)))"
    unfolding load_scan_def by (blast intro: fold_load_slot_visits)
  moreover have "load p f dst =
     (let sc = load_scan p f;
          r = FRAM_read (dev sc) (payload_addr (best_addr sc)) (sizeof_T p)
      in if found sc
         then (fst r, p, if fst r = ESP_OK then fst (snd r) else dst, snd (snd r))
         else (ESP_ERR_NOT_FOUND, p, dst, dev sc))"
    by (simp add: load_def Let_def split: prod.split)
  ultimately show ?thesis
    using load_slot_keeps_or_read[of p i s] by blast
qed

text \<open>
  The theorem at the example: the header read of slot 0 fails, the scan still reads the
  header of slot 1, and \<^verbatim>\<open>load\<close> returns \<^verbatim>\<open>ESP_ERR_NOT_FOUND\<close> although slot 0 holds a
  valid record.
\<close>

theorem load_absorbs_scan_failures_witness:
  "1 \<in> set (slot_indices ex_store) \<and>
   Read_call (slot_addr ex_store 1) sizeof_Header
     \<in> set (calls (dev (load_scan ex_store (ex_device 7 [- 1])))) \<and>
   slot_valid ex_store (cells (ex_device 7 [- 1])) 0 \<and>
   load ex_store (ex_device 7 [- 1]) [0, 0, 0, 0] =
     (ESP_ERR_NOT_FOUND, ex_store, [0, 0, 0, 0], dev (load_scan ex_store (ex_device 7 [- 1])))"
proof -
  have i: "1 \<in> set (slot_indices ex_store)"
    by (simp add: ex_store_def ex_eval)
  have nf: "\<not> found (load_scan ex_store (ex_device 7 [- 1]))"
    by (simp add: ex_store_def ex_device_def ex_record_def ex_eval)
  note t = load_absorbs_scan_failures[of ex_store "ex_device 7 [- 1]" 0
      "\<lparr>best = Header_zero, best_addr = 0, found = False, dev = ex_device 7 [- 1]\<rparr>" "[0, 0, 0, 0]"]
  from t i have "Read_call (slot_addr ex_store 1) sizeof_Header
     \<in> set (calls (dev (load_scan ex_store (ex_device 7 [- 1]))))"
    by blast
  moreover from t nf have "load ex_store (ex_device 7 [- 1]) [0, 0, 0, 0] =
     (ESP_ERR_NOT_FOUND, ex_store, [0, 0, 0, 0], dev (load_scan ex_store (ex_device 7 [- 1])))"
    by (simp add: Let_def)
  ultimately show ?thesis using i ex_valid0[of 7 "[- 1]"] by simp
qed

subsection \<open>C7: a changed payload byte\<close>

text \<open>
  Claim C7. The configuration is as required and no SPI transaction fails.
  \<^verbatim>\<open>store_immediate\<close> of a value \<open>src\<close> has returned, and then one byte of the payload
  it wrote (the byte \<open>k\<close> of slot \<open>t\<close>) is changed to another value \<open>x\<close>. The
  payload in the slot is then \<open>src\<close> with that byte changed, the stored CRC is still
  that of \<open>src\<close>, and the two differ: the slot is not valid any more, while every other
  slot is as it was. A \<^verbatim>\<open>load\<close> then returns the payload of the best of the other valid
  slots, or \<^verbatim>\<open>ESP_ERR_NOT_FOUND\<close> if there is none.
\<close>

theorem corrupted_payload_is_ignored:
  assumes lay: "layout_ok p" and nf: "no_faults f" and len: "length src = unat (sizeof_T p)"
    and st: "store_immediate p uninit f src = (e, p', f')"
    and k: "k < unat (sizeof_T p)" and x: "x \<noteq> src ! k"
  shows "e = ESP_OK \<and>
    (\<exists>t<unat (m_slots p).
       slot_payload p (cells f') t = src \<and> crc (slot_header p (cells f') t) = crc32 src \<and>
       slot_valid p (cells f') t \<and>
       (let m2 = (cells f')(slot_base p t + 20 + k := x) in
          slot_payload p m2 t = src[k := x] \<and> crc (slot_header p m2 t) = crc32 src \<and>
          crc32 (src[k := x]) \<noteq> crc32 src \<and> \<not> slot_valid p m2 t \<and>
          (\<forall>j<unat (m_slots p). j \<noteq> t \<longrightarrow>
             slot_header p m2 j = slot_header p (cells f') j \<and>
             slot_payload p m2 j = slot_payload p (cells f') j \<and>
             slot_valid p m2 j = slot_valid p (cells f') j) \<and>
          (case load p' (f'\<lparr>cells := m2\<rparr>) dst of
             (e2, p2, dst', f2) \<Rightarrow>
               if \<exists>j<unat (m_slots p). j \<noteq> t \<and> slot_valid p (cells f') j
               then e2 = ESP_OK \<and>
                    (\<exists>b. is_best (\<lambda>j. j \<noteq> t \<and> slot_valid p (cells f') j)
                            (\<lambda>j. seq (slot_header p (cells f') j)) (unat (m_slots p)) b \<and>
                          dst' = slot_payload p (cells f') b)
               else e2 = ESP_ERR_NOT_FOUND \<and> dst' = dst)))"
proof -
  let ?N = "unat (m_slots p)" and ?m = "cells f"
  from store_no_faults[OF lay nf, of uninit src] st obtain t sq where
    e: "e = ESP_OK" and p': "p' = p\<lparr>m_cache := src, m_dirty := False, m_last_seq := sq\<rparr>"
    and nf': "no_faults f'" and t: "t < ?N"
    and c: "cells f' = write_cells (write_cells ?m (slot_base p t + 20) (take (unat (sizeof_T p)) src))
                  (slot_base p t) (Header_bytes (new_header p sq src))"
    by auto
  let ?m1 = "cells f'"
  let ?m2 = "?m1(slot_base p t + 20 + k := x)"
  let ?g = "f'\<lparr>cells := ?m2\<rparr>"
  note sv = stored_slot_valid[OF len c]
  have crc1: "crc (slot_header p ?m1 t) = crc32 src"
    using sv(1) len by (simp add: new_header_def)
  note cs = corrupted_slot[OF k, where m="?m1" and t=t and x=x]
  have pl2: "slot_payload p ?m2 t = src[k := x]"
    using cs(2) sv(2) by simp
  have h2: "slot_header p ?m2 j = slot_header p ?m1 j" for j by (rule cs(1))
  have ne: "crc32 (src[k := x]) \<noteq> crc32 src"
    using crc32_list_update[of k src x] k len x by simp
  have inv: "\<not> slot_valid p ?m2 t"
    using ne crc1 by (simp add: slot_valid_def h2 pl2)
  have oth: "slot_valid p ?m2 j = slot_valid p ?m1 j \<and> slot_payload p ?m2 j = slot_payload p ?m1 j"
    if "j \<noteq> t" for j
    using cs(3)[OF that] by (simp add: slot_valid_def h2)
  have viff: "slot_valid p ?m2 j \<longleftrightarrow> j \<noteq> t \<and> slot_valid p ?m1 j" for j
    using oth[of j] inv by (cases "j = t") auto
  have nfg: "no_faults ?g" using nf' by (simp add: no_faults_def)
  obtain e2 p2 dst' f2 where l: "load p ?g dst = (e2, p2, dst', f2)"
    by (cases "load p ?g dst") auto
  have ld: "if \<exists>j<?N. j \<noteq> t \<and> slot_valid p ?m1 j
               then e2 = ESP_OK \<and>
                    (\<exists>b. is_best (\<lambda>j. j \<noteq> t \<and> slot_valid p ?m1 j)
                            (\<lambda>j. seq (slot_header p ?m1 j)) ?N b \<and>
                          dst' = slot_payload p ?m1 b)
               else e2 = ESP_ERR_NOT_FOUND \<and> dst' = dst"
  proof (cases "\<exists>j<?N. j \<noteq> t \<and> slot_valid p ?m1 j")
    case True
    then have "\<exists>i<?N. slot_valid p (cells ?g) i" by (simp add: viff)
    with load_spec[OF lay nfg, of dst] l obtain b where
      e2: "e2 = ESP_OK"
      and b: "is_best (slot_valid p ?m2) (\<lambda>j. seq (slot_header p ?m2 j)) ?N b"
      and d: "dst' = slot_payload p ?m2 b"
      by auto
    from b have "is_best (\<lambda>j. j \<noteq> t \<and> slot_valid p ?m1 j) (\<lambda>j. seq (slot_header p ?m1 j)) ?N b"
      by (simp add: viff[abs_def] h2)
    moreover from this have "b \<noteq> t" by (simp add: is_best_def)
    then have "slot_payload p ?m2 b = slot_payload p ?m1 b" using oth by simp
    ultimately show ?thesis using True e2 d by auto
  next
    case False
    then have "\<not> (\<exists>i<?N. slot_valid p (cells ?g) i)" by (simp add: viff)
    with load_spec[OF lay nfg, of dst] l False show ?thesis by auto
  qed
  have "case load p' ?g dst of
             (e2, p2, dst', f2) \<Rightarrow>
               if \<exists>j<?N. j \<noteq> t \<and> slot_valid p ?m1 j
               then e2 = ESP_OK \<and>
                    (\<exists>b. is_best (\<lambda>j. j \<noteq> t \<and> slot_valid p ?m1 j)
                            (\<lambda>j. seq (slot_header p ?m1 j)) ?N b \<and>
                          dst' = slot_payload p ?m1 b)
               else e2 = ESP_ERR_NOT_FOUND \<and> dst' = dst"
    using ld l by (simp add: p' load_config_only)
  with e t sv(2,3) crc1 pl2 h2 ne inv oth show ?thesis
    by (intro conjI exI[of _ t]) (simp_all add: Let_def)
qed

text \<open>
  The theorem at the example: 5, 6, 7, 8 is stored into slot 1, its first byte on the
  device is changed to 9, and \<^verbatim>\<open>load\<close> returns the older record 1, 2, 3, 4 of slot 0.
\<close>

theorem corrupted_payload_is_ignored_witness:
  "layout_ok ex_store \<and> no_faults (ex_device 7 []) \<and>
   length [5, 6, 7, 8 :: u8] = unat (sizeof_T ex_store) \<and>
   (0 :: nat) < unat (sizeof_T ex_store) \<and> (9 :: u8) \<noteq> [5, 6, 7, 8] ! 0 \<and>
   (case store_immediate ex_store ex_uninit (ex_device 7 []) [5, 6, 7, 8] of
      (e, p', f') \<Rightarrow>
        e = ESP_OK \<and> slot_payload ex_store (cells f') 1 = [5, 6, 7, 8] \<and>
        (let m2 = (cells f')(slot_base ex_store 1 + 20 + 0 := 9) in
           slot_payload ex_store m2 1 = [9, 6, 7, 8] \<and> \<not> slot_valid ex_store m2 1 \<and>
           (case load p' (f'\<lparr>cells := m2\<rparr>) [0, 0, 0, 0] of
              (e2, p2, dst', f2) \<Rightarrow> e2 = ESP_OK \<and> dst' = [1, 2, 3, 4])))"
proof -
  let ?src = "[5, 6, 7, 8 :: u8]"
  have len: "length ?src = unat (sizeof_T ex_store)" by (simp add: ex_size)
  have k: "(0 :: nat) < unat (sizeof_T ex_store)" by (simp add: ex_size)
  have x: "(9 :: u8) \<noteq> ?src ! 0" by simp
  obtain e p' f' where st: "store_immediate ex_store ex_uninit (ex_device 7 []) ?src = (e, p', f')"
    by (cases "store_immediate ex_store ex_uninit (ex_device 7 []) ?src") auto
  have c: "cells f' = write_cells (write_cells (cells (ex_device 7 [])) 556 ?src) 536
             (Header_bytes (new_header ex_store 8 ?src))"
    using st by (auto simp: ex_store_def ex_device_def ex_record_def ex_uninit_def ex_eval)
  have p0: "slot_payload ex_store (cells f') 0 = [1, 2, 3, 4]"
    unfolding c by (simp add: slot_payload_def slot_base_def ex_store_def ex_device_def ex_eval)
  have h0: "slot_header ex_store (cells f') 0 = ex_record 7"
    unfolding c by (simp add: slot_header_def slot_base_def ex_store_def ex_device_def ex_eval)
  have v0: "slot_valid ex_store (cells f') 0"
    by (simp add: slot_valid_def h0 p0) (simp add: ex_record_def ex_store_def ex_eval)
  let ?m2 = "\<lambda>t. (cells f')(slot_base ex_store t + 20 + 0 := 9)"
  note th = corrupted_payload_is_ignored[OF ex_layout ex_no_faults len st k x, of "[0, 0, 0, 0]",
      unfolded ex_slots Let_def]
  from th obtain t where e: "e = ESP_OK" and t: "t < 2"
    and pt: "slot_payload ex_store (cells f') t = ?src"
    and p2: "slot_payload ex_store (?m2 t) t = ?src[0 := 9]"
    and inv: "\<not> slot_valid ex_store (?m2 t) t"
    and ld: "case load p' (f'\<lparr>cells := ?m2 t\<rparr>) [0, 0, 0, 0] of
             (e2, p2, dst', f2) \<Rightarrow>
               if \<exists>j<2. j \<noteq> t \<and> slot_valid ex_store (cells f') j
               then e2 = ESP_OK \<and>
                    (\<exists>b. is_best (\<lambda>j. j \<noteq> t \<and> slot_valid ex_store (cells f') j)
                            (\<lambda>j. seq (slot_header ex_store (cells f') j)) 2 b \<and>
                          dst' = slot_payload ex_store (cells f') b)
               else e2 = ESP_ERR_NOT_FOUND \<and> dst' = [0, 0, 0, 0]"
    by (elim conjE exE) (rule that)
  from pt p0 t have t1: "t = 1" by (auto simp: less_2_cases_iff)
  have ex: "\<exists>j<2. j \<noteq> t \<and> slot_valid ex_store (cells f') j"
    using v0 t1 by (intro exI[of _ 0]) simp
  obtain e2 p2' dst' f2 where l: "load p' (f'\<lparr>cells := ?m2 1\<rparr>) [0, 0, 0, 0] = (e2, p2', dst', f2)"
    by (cases "load p' (f'\<lparr>cells := ?m2 1\<rparr>) [0, 0, 0, 0]") auto
  from ld ex l t1 obtain b where e2: "e2 = ESP_OK"
    and b: "is_best (\<lambda>j. j \<noteq> 1 \<and> slot_valid ex_store (cells f') j)
                            (\<lambda>j. seq (slot_header ex_store (cells f') j)) 2 b"
    and d: "dst' = slot_payload ex_store (cells f') b"
    by auto
  from b have "b = 0" by (auto simp: is_best_def less_2_cases_iff)
  with d p0 have "dst' = [1, 2, 3, 4]" by simp
  with e e2 l st pt p2 inv t1 ex_layout ex_no_faults[of 7] len k x show ?thesis
    by (simp add: Let_def)
qed

subsection \<open>C8: the checksum function\<close>

text \<open>
  Claim C8. A call of \<^verbatim>\<open>crc32\<close> from any statics the process can be in returns the
  reference CRC-32 of its input (reflected polynomial \<^verbatim>\<open>0xEDB88320\<close>, initial value
  \<^verbatim>\<open>0xFFFFFFFF\<close>, final XOR with \<^verbatim>\<open>0xFFFFFFFF\<close>) and leaves the built table behind:
  the result depends on the input bytes only, not on the calls made before.
\<close>

theorem crc32_call_reachable:
  assumes "reachable_statics st"
  shows "crc32_call st data = (crc32_reference data, \<lparr>table = build_table, init = True\<rparr>)"
  using reachable_statics_inv[OF assms]
  by (auto simp: crc32_call_first crc32_call_init)

theorem crc32_call_reachable_witness:
  "reachable_statics (snd (crc32_call crc32_statics0 [1])) \<and>
   crc32_call (snd (crc32_call crc32_statics0 [1])) [2, 3] =
     (crc32_reference [2, 3], \<lparr>table = build_table, init = True\<rparr>)"
proof -
  have r: "reachable_statics (snd (crc32_call crc32_statics0 [1]))"
    by (rule reachable_statics.call) (rule reachable_statics.start)
  show ?thesis using r crc32_call_reachable [OF r, of "[2, 3]"] by simp
qed

subsection \<open>C9: load changes nothing\<close>

text \<open>
  Claim C9. Whatever \<^verbatim>\<open>load\<close> returns, the object is as it was (so are its cache, its
  dirty flag and its remembered sequence number), the memory array is as it was, and the
  calls made on the driver are reads only.
\<close>

theorem load_read_only:
  "case load p f dst of (e, p', dst', f') \<Rightarrow>
     p' = p \<and> m_cache p' = m_cache p \<and> m_dirty p' = m_dirty p \<and> m_last_seq p' = m_last_seq p \<and>
     cells f' = cells f \<and> (\<exists>rs. calls f' = calls f @ rs \<and> list_all is_read rs)"
proof -
  have a: "only_reads f (dev (load_scan p f))" by (rule load_scan_only_reads)
  have b: "only_reads f (snd (snd (FRAM_read (dev (load_scan p f)) a n)))" for a n
    using only_reads_trans[OF a only_reads_FRAM_read] .
  show ?thesis
    using a b[of "payload_addr (best_addr (load_scan p f))" "sizeof_T p"]
    by (auto simp: load_def Let_def only_reads_def split: prod.split)
qed

subsection \<open>C10: a failed header read in store_immediate\<close>

text \<open>
  Claim C10. In the scan of \<^verbatim>\<open>store_immediate\<close> the result of the header read is thrown
  away. When the read of slot \<open>i\<close> fails, the slot is not skipped: the header variable
  holds what it held before the read (\<open>uninit i\<close>), this is compared with the magic and
  the version, and it becomes the current best when they match and no better one was
  seen.
\<close>

theorem store_slot_failed_read:
  assumes "FRAM_read (dev s) (slot_addr p i) sizeof_Header = (err, hb, f1)" and "err \<noteq> ESP_OK"
  shows "store_slot p uninit i s =
     (if magic (uninit i) = STORE_MAGIC \<and> version (uninit i) = m_version p \<and>
         (\<not> found s \<or> seq (best s) < seq (uninit i))
      then \<lparr>best = uninit i, best_addr = slot_addr p i, found = True, dev = f1\<rparr>
      else s\<lparr>dev := f1\<rparr>)"
  using assms by (simp add: store_slot_def Let_def)

text \<open>
  The theorem at the example: the header read of slot 0 fails and the header variable
  looks like a record with sequence number 41. It becomes the best, and the next
  generation gets the number 42 and the slot 1, while the record on the device has the
  number 7.
\<close>

theorem store_slot_failed_read_witness:
  "FRAM_read (ex_device 7 [- 1]) (slot_addr ex_store 0) sizeof_Header =
     (- 1, [], (ex_device 7 [])\<lparr>calls := [Read_call 512 20]\<rparr>) \<and>
   (- 1 :: esp_err_t) \<noteq> ESP_OK \<and>
   store_slot ex_store ex_stale 0
       \<lparr>best = Header_zero, best_addr = m_base ex_store, found = False, dev = ex_device 7 [- 1]\<rparr> =
     \<lparr>best = ex_record 41, best_addr = 512, found = True,
        dev = (ex_device 7 [])\<lparr>calls := [Read_call 512 20]\<rparr>\<rparr> \<and>
   seq (slot_header ex_store (cells (ex_device 7 [- 1])) 0) = 7 \<and>
   next_seq (store_scan ex_store ex_stale (ex_device 7 [- 1])) = 42 \<and>
   next_slot ex_store (store_scan ex_store ex_stale (ex_device 7 [- 1])) = 536"
proof -
  let ?s0 = "\<lparr>best = Header_zero, best_addr = m_base ex_store, found = False, dev = ex_device 7 [- 1]\<rparr>"
  have r: "FRAM_read (dev ?s0) (slot_addr ex_store 0) sizeof_Header =
     (- 1, [], (ex_device 7 [])\<lparr>calls := [Read_call 512 20]\<rparr>)"
    by (simp add: ex_store_def ex_device_def ex_eval)
  have ne: "(- 1 :: esp_err_t) \<noteq> ESP_OK" by (simp add: ESP_OK_def)
  have 1: "store_slot ex_store ex_stale 0 ?s0 =
     \<lparr>best = ex_record 41, best_addr = 512, found = True,
        dev = (ex_device 7 [])\<lparr>calls := [Read_call 512 20]\<rparr>\<rparr>"
    using store_slot_failed_read[OF r ne, of ex_stale]
    by (simp add: ex_stale_def ex_record_def ex_store_def ex_eval)
  have 2: "store_scan ex_store ex_stale (ex_device 7 [- 1]) =
      store_slot ex_store ex_stale 1 (store_slot ex_store ex_stale 0 ?s0)"
    by (simp add: store_scan_def ex_store_def Persistent_new_def slot_indices_def upt_conv_Cons)
  have 3: "next_seq (store_scan ex_store ex_stale (ex_device 7 [- 1])) = 42 \<and>
        next_slot ex_store (store_scan ex_store ex_stale (ex_device 7 [- 1])) = 536"
    unfolding 2 1
    by (simp add: ex_store_def ex_device_def ex_record_def ex_stale_def ex_eval)
  show ?thesis
    using r 1 3 ne by (simp add: ex_header0 ex_record_def)
qed

end
